theory Spec2Isabelle
  imports Main "HOL-Library.Multiset" "HOL-Library.AList"
begin

chapter \<open>The model\<close>

text \<open>
  The development covers three files of dae-wing: the configuration service with
  \<^verbatim>\<open>Run\<close>, \<^verbatim>\<open>deduplicateNodes\<close>, \<^verbatim>\<open>uniquefyNodesName\<close> and \<^verbatim>\<open>Update\<close> (package
  \<^verbatim>\<open>config\<close>), the routing service with \<^verbatim>\<open>Update\<close> (package \<^verbatim>\<open>routing\<close>), and the
  reload loop \<^verbatim>\<open>Run\<close> of package \<^verbatim>\<open>dae\<close>. Go functions are HOL functions: errors are
  values of a sum type, the database and the reload channel are passed as a state and
  returned, pointers into a slice are positions, and what the code takes from other
  packages (the parser, the engine, the database driver) is a parameter.
\<close>

section \<open>Strings and formatting\<close>

text \<open>
  Go's \<^verbatim>\<open>%v\<close> of an unsigned integer and \<^verbatim>\<open>strconv.FormatUint(x, 10)\<close> print the
  decimal digits without leading zeros. Identifiers, versions and the suffix counter
  \<^verbatim>\<open>j\<close> are natural numbers here: the counter is bounded by the number of entries of
  an in-memory map, far below the 63 bits of a Go \<^verbatim>\<open>int\<close>.
\<close>

definition digit :: "nat \<Rightarrow> char" where
  "digit d = ''0123456789'' ! d"

fun FormatUint :: "nat \<Rightarrow> string" where
  "FormatUint n = (if n < 10 then [digit n] else FormatUint (n div 10) @ [digit (n mod 10)])"

declare FormatUint.simps [simp del]

text \<open>\<^verbatim>\<open>strings.Join(elems, sep)\<close>.\<close>

fun Join :: "string list \<Rightarrow> string \<Rightarrow> string" where
  "Join [] sep = []"
| "Join [x] sep = x"
| "Join (x # y # ys) sep = x @ sep @ Join (y # ys) sep"

section \<open>Go maps and their iteration order\<close>

text \<open>
  A Go map is an association list with distinct keys (\<open>map_of\<close> reads it,
  \<open>AList.update\<close> writes it). The order in which \<^verbatim>\<open>for k, v := range m\<close> visits the
  entries is not specified by the language and differs from run to run, so every such
  loop takes the order as an argument: a function \<open>\<rho>\<close> that rearranges the entries.
  Any \<open>\<rho>\<close> with \<open>range_order \<rho>\<close> is a possible run.
\<close>

definition range_order :: "('a list \<Rightarrow> 'a list) \<Rightarrow> bool" where
  "range_order \<rho> = (\<forall>es. mset (\<rho> es) = mset es)"

section \<open>Nodes: deduplication and naming\<close>

text \<open>The fields of \<^verbatim>\<open>db.Node\<close> that the assembly reads.\<close>

record db_Node =
  Node_Link :: string
  Node_Name :: string
  Node_Tag :: "string option"
  Node_SubscriptionID :: "nat option"

text \<open>
  \<^verbatim>\<open>type node struct { dbNode *db.Node; groups []*db.Group; uniqueName string }\<close>.
  A \<^verbatim>\<open>*db.Group\<close> is the position of the group in the slice \<^verbatim>\<open>groups\<close> of
  \<^verbatim>\<open>Run\<close>, which takes the address of one loop variable per position. A \<^verbatim>\<open>*node\<close>
  is the position of the node in the slice that holds it: \<^verbatim>\<open>Run\<close> allocates one node per
  record, and \<^verbatim>\<open>deduplicateNodes\<close> returns each pointer once.
\<close>

record node =
  dbNode :: db_Node
  groups :: "nat list"
  uniqueName :: string

text \<open>The body of the first loop of \<^verbatim>\<open>deduplicateNodes\<close>, on the map \<^verbatim>\<open>set\<close>.\<close>

definition set_insert :: "node \<Rightarrow> (string \<times> node) list \<Rightarrow> (string \<times> node) list" where
  "set_insert n s =
     (case map_of s (Node_Link (dbNode n)) of
        Some oldNode \<Rightarrow>
          AList.update (Node_Link (dbNode n)) (oldNode\<lparr>groups := groups oldNode @ groups n\<rparr>) s
      | None \<Rightarrow> AList.update (Node_Link (dbNode n)) n s)"

text \<open>The second loop appends the values of \<^verbatim>\<open>set\<close> in iteration order.\<close>

definition deduplicateNodes ::
  "((string \<times> node) list \<Rightarrow> (string \<times> node) list) \<Rightarrow> node list \<Rightarrow> node list" where
  "deduplicateNodes \<rho> nodes = map snd (\<rho> (fold set_insert nodes []))"

text \<open>
  \<^verbatim>\<open>sort.SliceStable\<close> with \<^verbatim>\<open>less(i, j) = (tag i != nil && tag j == nil)\<close>: a stable sort
  on the rank below.
\<close>

definition tag_rank :: "node \<Rightarrow> nat" where
  "tag_rank n = (if Node_Tag (dbNode n) \<noteq> None then 0 else 1)"

definition SliceStable_hasTag :: "node list \<Rightarrow> node list" where
  "SliceStable_hasTag nodes = sort_key tag_rank nodes"

definition baseName :: "db_Node \<Rightarrow> string" where
  "baseName n =
     (case Node_SubscriptionID n of
        None \<Rightarrow> Node_Name n
      | Some sid \<Rightarrow> FormatUint sid @ ''.'' @ Node_Name n)"

text \<open>
  The loop \<^verbatim>\<open>for j := 0; ; j++\<close> has no bound in the source. It ends because decimal
  printing is injective, so only finitely many candidates are keys of the map.
\<close>

lemma digit_inj: "a < 10 \<Longrightarrow> b < 10 \<Longrightarrow> digit a = digit b \<Longrightarrow> a = b"
proof -
  assume a: "a < 10" and b: "b < 10" and e: "digit a = digit b"
  have d: "distinct ''0123456789''" by simp
  have "length ''0123456789'' = 10" by simp
  with a b e d show ?thesis
    unfolding digit_def by (metis nth_eq_iff_index_eq)
qed

lemma FormatUint_nonempty: "FormatUint n \<noteq> []"
  by (subst FormatUint.simps) simp

lemma FormatUint_inj: "FormatUint a = FormatUint b \<Longrightarrow> a = b"
proof (induction a arbitrary: b rule: FormatUint.induct)
  case (1 n)
  show ?case
  proof (cases "n < 10")
    case True
    note small = this
    show ?thesis
    proof (cases "b < 10")
      case True
      with small "1.prems" show ?thesis
        by (simp add: FormatUint.simps [of n] FormatUint.simps [of b] digit_inj)
    next
      case False
      with small "1.prems" FormatUint_nonempty [of "b div 10"] show ?thesis
        by (simp add: FormatUint.simps [of n] FormatUint.simps [of b])
    qed
  next
    case False
    note big = this
    show ?thesis
    proof (cases "b < 10")
      case True
      with big "1.prems" FormatUint_nonempty [of "n div 10"] show ?thesis
        by (simp add: FormatUint.simps [of n] FormatUint.simps [of b])
    next
      case False
      with big "1.prems" have e: "FormatUint (n div 10) = FormatUint (b div 10)"
        and d: "digit (n mod 10) = digit (b mod 10)"
        by (simp_all add: FormatUint.simps [of n] FormatUint.simps [of b])
      from "1.IH" [OF big e] have "n div 10 = b div 10" .
      moreover from d have "n mod 10 = b mod 10" by (auto intro: digit_inj)
      ultimately show ?thesis by (metis div_mult_mod_eq)
    qed
  qed
qed

lemma candidates_finite:
  "finite {k. base @ ''.'' @ FormatUint k \<in> fst ` set (m :: (string \<times> nat) list)}"
proof -
  have "inj (\<lambda>k. base @ ''.'' @ FormatUint k)"
    by (auto simp: inj_def dest: FormatUint_inj)
  then have "finite ((\<lambda>k. base @ ''.'' @ FormatUint k) -` (fst ` set m))"
    by (intro finite_vimageI) simp_all
  then show ?thesis by (simp add: vimage_def)
qed

function wantedName_loop :: "(string \<times> nat) list \<Rightarrow> string \<Rightarrow> string \<Rightarrow> nat \<Rightarrow> string" where
  "wantedName_loop m base wanted j =
     (if map_of m wanted \<noteq> None
      then wantedName_loop m base (base @ ''.'' @ FormatUint j) (j + 1)
      else wanted)"
  by pat_completeness auto
termination
proof (relation "measure (\<lambda>(m, base, wanted, j).
          2 * card {k. j \<le> k \<and> base @ ''.'' @ FormatUint k \<in> fst ` set m}
          + (if wanted \<in> fst ` set m then 1 else 0))")
  show "wf (measure (\<lambda>(m, base, wanted, j).
          2 * card {k. j \<le> k \<and> base @ ''.'' @ FormatUint k \<in> fst ` set m}
          + (if wanted \<in> fst ` set m then 1 else 0)))"
    by simp
next
  fix m :: "(string \<times> nat) list" and base wanted :: string and j :: nat
  assume "map_of m wanted \<noteq> None"
  then have w: "wanted \<in> fst ` set m"
    by (auto simp: map_of_eq_None_iff)
  let ?A = "\<lambda>i. {k. i \<le> k \<and> base @ ''.'' @ FormatUint k \<in> fst ` set m}"
  have fin: "finite (?A i)" for i
    by (rule finite_subset [OF _ candidates_finite [of base m]]) auto
  have split: "?A j = (if base @ ''.'' @ FormatUint j \<in> fst ` set m then insert j (?A (j + 1)) else ?A (j + 1))"
    by (auto simp: le_Suc_eq Suc_le_eq le_less)
  have notin: "j \<notin> ?A (j + 1)" by simp
  show "((m, base, base @ ''.'' @ FormatUint j, j + 1), (m, base, wanted, j))
        \<in> measure (\<lambda>(m, base, wanted, j).
          2 * card {k. j \<le> k \<and> base @ ''.'' @ FormatUint k \<in> fst ` set m}
          + (if wanted \<in> fst ` set m then 1 else 0))"
  proof (cases "base @ ''.'' @ FormatUint j \<in> fst ` set m")
    case True
    with split have "card (?A j) = Suc (card (?A (j + 1)))"
      using fin [of "j + 1"] notin by simp
    with True w show ?thesis by simp
  next
    case False
    with split have "card (?A j) = card (?A (j + 1))" by simp
    with False w show ?thesis by simp
  qed
qed

declare wantedName_loop.simps [simp del]

text \<open>
  The name under which the loop of \<^verbatim>\<open>uniquefyNodesName\<close> stores a node: its tag, or the
  first free candidate of its base name. The map \<^verbatim>\<open>nameToNodes\<close> holds node pointers,
  here positions in the sorted slice.
\<close>

definition wantedName :: "(string \<times> nat) list \<Rightarrow> node \<Rightarrow> string" where
  "wantedName m n =
     (case Node_Tag (dbNode n) of
        Some t \<Rightarrow> t
      | None \<Rightarrow> wantedName_loop m (baseName (dbNode n)) (baseName (dbNode n)) 0)"

fun nameToNodes_loop :: "node list \<Rightarrow> nat \<Rightarrow> (string \<times> nat) list \<Rightarrow> (string \<times> nat) list" where
  "nameToNodes_loop [] i m = m"
| "nameToNodes_loop (n # ns) i m = nameToNodes_loop ns (i + 1) (AList.update (wantedName m n) i m)"

text \<open>The body of the last loop: \<^verbatim>\<open>node.uniqueName = name\<close>, through the pointer.\<close>

definition assign_uniqueName :: "string \<times> nat \<Rightarrow> node list \<Rightarrow> node list" where
  "assign_uniqueName e ns = ns[snd e := (ns ! snd e)\<lparr>uniqueName := fst e\<rparr>]"

text \<open>
  \<^verbatim>\<open>uniquefyNodesName\<close> sorts the caller's slice in place and writes the names through the
  pointers; the model returns the slice as the caller sees it afterwards.
\<close>

definition uniquefyNodesName ::
  "((string \<times> nat) list \<Rightarrow> (string \<times> nat) list) \<Rightarrow> node list \<Rightarrow> node list" where
  "uniquefyNodesName \<rho> nodes =
     (let sorted = SliceStable_hasTag nodes;
          nameToNodes = nameToNodes_loop sorted 0 []
      in fold assign_uniqueName (\<rho> nameToNodes) sorted)"

text \<open>The tags of a list of nodes, in order.\<close>

definition node_tags :: "node list \<Rightarrow> string list" where
  "node_tags ns = List.map_filter (\<lambda>n. Node_Tag (dbNode n)) ns"

text \<open>An entry of the node section: \<^verbatim>\<open>fmt.Sprintf("%v:%v", node.uniqueName, node.dbNode.Link)\<close>.\<close>

definition node_entry :: "node \<Rightarrow> string" where
  "node_entry n = uniqueName n @ '':'' @ Node_Link (dbNode n)"

section \<open>The runtime configuration\<close>

text \<open>
  \<^verbatim>\<open>daeConfig.Config\<close> belongs to the engine's library. The global and routing sections
  are opaque here (type parameters); of the DNS section only the IP version preference is
  read. \<^verbatim>\<open>config_parser.Param\<close> and \<^verbatim>\<open>config_parser.Function\<close> carry the fields that
  \<^verbatim>\<open>Run\<close> fills.
\<close>

record Param =
  Param_Key :: string
  Param_Val :: string

record Function =
  Function_Name :: string
  Function_Not :: bool
  Function_Params :: "Param list"

datatype FunctionListOrString = PolicyString string | PolicyFunction Function

record daeGroup =
  daeGroup_Name :: string
  daeGroup_Filter :: "Function list"
  daeGroup_Policy :: FunctionListOrString

record daeDns =
  IpVersionPrefer :: int

record ('g, 'r) daeConfig =
  Global :: 'g
  Dns :: daeDns
  Routing :: 'r
  Group :: "daeGroup list"
  Node :: "string list"
  Subscription :: "string list"

text \<open>
  \<^verbatim>\<open>ReloadMessage\<close>. A channel is a number; \<^verbatim>\<open>Run\<close> makes a new channel for every
  message it submits.
\<close>

record ('g, 'r) ReloadMessage =
  Config :: "('g, 'r) daeConfig"
  Callback :: nat

section \<open>Persisted records\<close>

text \<open>
  The package \<^verbatim>\<open>db\<close> is not among the sources; the records carry the columns that the
  code under study reads and writes. A group is held as the query of \<^verbatim>\<open>Run\<close> loads it:
  with its policy parameters (already in the form \<^verbatim>\<open>param.Marshal()\<close> gives them), its
  subscriptions with their nodes, and the nodes attached to the group itself.
\<close>

record db_Config =
  Config_ID :: nat
  Config_Global :: string
  Config_Selected :: bool
  Config_Version :: nat

record db_Dns =
  Dns_ID :: nat
  Dns_Dns :: string
  Dns_Selected :: bool
  Dns_Version :: nat

record db_Routing =
  Routing_ID :: nat
  Routing_Routing :: string
  Routing_Selected :: bool
  Routing_Version :: nat

record db_Subscription =
  Subscription_ID :: nat
  Subscription_Node :: "db_Node list"

record db_Group =
  Group_ID :: nat
  Group_Name :: string
  Group_Policy :: string
  Group_PolicyParams :: "Param list"
  Group_Version :: nat
  Group_Subscription :: "db_Subscription list"
  Group_Node :: "db_Node list"

record db_System =
  Running :: bool
  RunningConfigID :: nat
  RunningConfigVersion :: nat
  RunningDnsID :: nat
  RunningDnsVersion :: nat
  RunningRoutingID :: nat
  RunningRoutingVersion :: nat
  RunningGroupVersions :: string
  RunningGroups :: "nat list"

record database =
  configs :: "db_Config list"
  dnss :: "db_Dns list"
  routings :: "db_Routing list"
  group_rows :: "db_Group list"
  system :: "db_System option"

text \<open>
  The state the operations act on: the database (or the open transaction) and the
  messages submitted to the channel \<^verbatim>\<open>dae.ChReloadConfigs\<close> so far, oldest first. The
  channel's capacity of 16 is not modelled: a submission never blocks.
\<close>

record ('g, 'r) world =
  db :: database
  ChReloadConfigs :: "('g, 'r) ReloadMessage list"

section \<open>Errors and the environment\<close>

datatype error =
    DbError string
  | ErrRecordNotFound
  | DecodeCursorError string
  | PleaseSelectConfig
  | PleaseSelectDns
  | PleaseSelectRouting
  | ParseConfigError string
  | MarshalError string
  | GroupsNotDefined "string list"
  | FailedToLoad string
  | FailedToDryrun string
  | BadCurrentRouting string
  | BadCurrentConfig string

text \<open>The text of an error, as \<^verbatim>\<open>fmt.Errorf\<close> builds it.\<close>

fun Error :: "error \<Rightarrow> string" where
  "Error (DbError e) = e"
| "Error ErrRecordNotFound = ''record not found''"
| "Error (DecodeCursorError e) = e"
| "Error PleaseSelectConfig = ''please select a config''"
| "Error PleaseSelectDns = ''please select a dns''"
| "Error PleaseSelectRouting = ''please select a routing''"
| "Error (ParseConfigError e) = e"
| "Error (MarshalError e) = e"
| "Error (GroupsNotDefined notFound) =
     ''groups not defined but referenced by routing: '' @ Join notFound '', ''"
| "Error (FailedToLoad e) = ''failed to load new config: '' @ e @ ''; see more in log''"
| "Error (FailedToDryrun e) = ''failed to dryrun: '' @ e @ ''; see more in log and report bugs''"
| "Error (BadCurrentRouting e) = ''bad current routing: '' @ e"
| "Error (BadCurrentConfig e) = ''bad current config: '' @ e"

text \<open>The database operations of the code; any of them can fail in the driver.\<close>

datatype db_op =
    FirstSelectedConfig
  | FirstSelectedDns
  | FirstSelectedRouting
  | FindGroups
  | FindSolitaryNodes nat
  | FirstOrCreateSystem
  | UpdatesSystem
  | ReplaceRunningGroups
  | FirstByID
  | UpdatesRow

text \<open>
  What the orchestrator answers on a message's callback channel, if it ever does. The
  file of the assembly reads an error from the channel (\<open>None\<close> is \<^verbatim>\<open>nil\<close>); the file of
  the loop, of another revision, declares the channel with booleans and sends \<^verbatim>\<open>true\<close>.
\<close>

datatype reply = NoReply | Reply "string option"

text \<open>
  Everything the code calls and the sources do not hold, as parameters:
  \<^verbatim>\<open>dae.ParseConfig\<close>, \<^verbatim>\<open>dae.NecessaryOutbounds\<close>, \<^verbatim>\<open>dae.EmptyConfig\<close>,
  \<^verbatim>\<open>common.DecodeCursor\<close> and the marshaller of the global section; the failures of the
  database driver; the answer of the orchestrator to a submitted message; and the order
  of each iteration over a map.
\<close>

record ('g, 'r) env =
  ParseConfig :: "string option \<Rightarrow> string option \<Rightarrow> string option \<Rightarrow> string + ('g, 'r) daeConfig"
  NecessaryOutbounds :: "'r \<Rightarrow> string list"
  EmptyConfig :: "('g, 'r) daeConfig"
  DecodeCursor :: "string \<Rightarrow> string + nat"
  MarshalSection :: "'g \<Rightarrow> string + string"
  fault :: "db_op \<Rightarrow> string option"
  callback_reply :: "('g, 'r) ReloadMessage \<Rightarrow> reply"
  range_set :: "(string \<times> node) list \<Rightarrow> (string \<times> node) list"
  range_nameToNodes :: "(string \<times> nat) list \<Rightarrow> (string \<times> nat) list"
  range_nameSet :: "(string \<times> unit) list \<Rightarrow> (string \<times> unit) list"
  range_mGroupNode :: "(nat \<times> node list) list \<Rightarrow> (nat \<times> node list) list"

definition range_orders :: "('g, 'r) env \<Rightarrow> bool" where
  "range_orders env =
     (range_order (range_set env) \<and> range_order (range_nameToNodes env) \<and>
      range_order (range_nameSet env) \<and> range_order (range_mGroupNode env))"

section \<open>Assembly: \<^verbatim>\<open>Run\<close>\<close>

text \<open>
  \<^verbatim>\<open>Where(cond).First(&m)\<close>: the matching row with the least primary key, if any.
\<close>

definition db_First :: "('a \<Rightarrow> nat) \<Rightarrow> ('a \<Rightarrow> bool) \<Rightarrow> 'a list \<Rightarrow> 'a option" where
  "db_First key P rows =
     (case filter P rows of [] \<Rightarrow> None | r # rs \<Rightarrow> Some (arg_min_list key (r # rs)))"

text \<open>
  The three reads of the selected profiles and the call of \<^verbatim>\<open>dae.ParseConfig\<close>, with
  their early returns.
\<close>

definition Run_parse ::
  "('g, 'r) env \<Rightarrow> database \<Rightarrow> error + (db_Config \<times> db_Dns \<times> db_Routing \<times> ('g, 'r) daeConfig)" where
  "Run_parse env d =
     (case fault env FirstSelectedConfig of Some e \<Rightarrow> Inl (DbError e) | None \<Rightarrow>
      case db_First Config_ID Config_Selected (configs d) of None \<Rightarrow> Inl PleaseSelectConfig | Some mConfig \<Rightarrow>
      case fault env FirstSelectedDns of Some e \<Rightarrow> Inl (DbError e) | None \<Rightarrow>
      case db_First Dns_ID Dns_Selected (dnss d) of None \<Rightarrow> Inl PleaseSelectDns | Some mDns \<Rightarrow>
      case fault env FirstSelectedRouting of Some e \<Rightarrow> Inl (DbError e) | None \<Rightarrow>
      case db_First Routing_ID Routing_Selected (routings d) of None \<Rightarrow> Inl PleaseSelectRouting | Some mRouting \<Rightarrow>
      case ParseConfig env (Some (Config_Global mConfig)) (Some (Dns_Dns mDns)) (Some (Routing_Routing mRouting)) of
        Inl e \<Rightarrow> Inl (ParseConfigError e)
      | Inr c \<Rightarrow> Inr (mConfig, mDns, mRouting, c))"

text \<open>\<^verbatim>\<open>Where("name in ?", outbounds).Find(&groups)\<close>; its \<^verbatim>\<open>RowsAffected\<close> is the number of rows found.\<close>

definition Run_groups :: "('g, 'r) env \<Rightarrow> database \<Rightarrow> string list \<Rightarrow> error + db_Group list" where
  "Run_groups env d outbounds =
     (case fault env FindGroups of
        Some e \<Rightarrow> Inl (DbError e)
      | None \<Rightarrow> Inr (filter (\<lambda>g. Group_Name g \<in> set outbounds) (group_rows d)))"

text \<open>
  The search for referenced groups that were not found: the set of the outbounds, less the
  names of the groups found, less the presets, in the iteration order of the map.
\<close>

definition nameSet_of :: "string list \<Rightarrow> db_Group list \<Rightarrow> (string \<times> unit) list" where
  "nameSet_of outbounds gs =
     fold (\<lambda>g s. AList.delete (Group_Name g) s) gs
       (fold (\<lambda>name s. AList.update name () s) outbounds [])"

definition preset :: "string \<Rightarrow> bool" where
  "preset name = (name = ''direct'' \<or> name = ''block'' \<or> name = ''must_direct'')"

definition Run_notFound :: "('g, 'r) env \<Rightarrow> string list \<Rightarrow> db_Group list \<Rightarrow> error option" where
  "Run_notFound env outbounds gs =
     (if length gs \<noteq> length outbounds
      then (let notFound = filter (\<lambda>name. \<not> preset name)
                             (map fst (range_nameSet env (nameSet_of outbounds gs)))
            in if length notFound > 0 then Some (GroupsNotDefined notFound) else None)
      else None)"

text \<open>
  The nodes of the groups: for the group at position \<open>i\<close>, the nodes of its subscriptions
  and then the nodes attached to the group with no subscription, which a further query
  reads.
\<close>

definition new_node :: "nat \<Rightarrow> db_Node \<Rightarrow> node" where
  "new_node i n = \<lparr>dbNode = n, groups = [i], uniqueName = ''''\<rparr>"

definition group_nodes :: "nat \<Rightarrow> db_Group \<Rightarrow> node list" where
  "group_nodes i g =
     concat (map (\<lambda>gsub. map (new_node i) (Subscription_Node gsub)) (Group_Subscription g))
     @ map (new_node i) (filter (\<lambda>n. Node_SubscriptionID n = None) (Group_Node g))"

fun Run_nodes :: "('g, 'r) env \<Rightarrow> nat \<Rightarrow> db_Group list \<Rightarrow> error + node list" where
  "Run_nodes env i [] = Inr []"
| "Run_nodes env i (g # gs) =
     (case fault env (FindSolitaryNodes i) of
        Some e \<Rightarrow> Inl (DbError e)
      | None \<Rightarrow>
          (case Run_nodes env (i + 1) gs of
             Inl e \<Rightarrow> Inl e
           | Inr nodes \<Rightarrow> Inr (group_nodes i g @ nodes)))"

text \<open>The map \<^verbatim>\<open>mGroupNode\<close>, from group pointers to their nodes.\<close>

definition mGroupNode_append :: "node \<Rightarrow> nat \<Rightarrow> (nat \<times> node list) list \<Rightarrow> (nat \<times> node list) list" where
  "mGroupNode_append n g m =
     AList.update g ((case map_of m g of None \<Rightarrow> [] | Some ns \<Rightarrow> ns) @ [n]) m"

definition mGroupNode_of :: "node list \<Rightarrow> (nat \<times> node list) list" where
  "mGroupNode_of nodes = fold (\<lambda>n m. fold (mGroupNode_append n) (groups n) m) nodes []"

text \<open>
  The appends to \<^verbatim>\<open>mGroupNode\<close> one after the other: the pairs of a group pointer and
  a node, in the order in which the two nested loops visit them. The map is the result of
  appending them in this order.
\<close>

definition group_pairs :: "node list \<Rightarrow> (nat \<times> node) list" where
  "group_pairs xs = concat (map (\<lambda>n. map (\<lambda>g. (g, n)) (groups n)) xs)"

text \<open>The group section: one entry per key of \<^verbatim>\<open>mGroupNode\<close>, in iteration order.\<close>

definition group_policy :: "db_Group \<Rightarrow> FunctionListOrString" where
  "group_policy g =
     (if length (Group_PolicyParams g) = 0
      then PolicyString (Group_Policy g)
      else PolicyFunction
             \<lparr>Function_Name = Group_Policy g, Function_Not = False,
              Function_Params = Group_PolicyParams g\<rparr>)"

definition group_entry :: "db_Group list \<Rightarrow> nat \<times> node list \<Rightarrow> daeGroup" where
  "group_entry gs e =
     \<lparr>daeGroup_Name = Group_Name (gs ! fst e),
      daeGroup_Filter =
        [\<lparr>Function_Name = ''name'', Function_Not = False,
          Function_Params = map (\<lambda>n. \<lparr>Param_Key = '''', Param_Val = uniqueName n\<rparr>) (snd e)\<rparr>],
      daeGroup_Policy = group_policy (gs ! fst e)\<rparr>"

text \<open>
  From the nodes collected to the configuration submitted: deduplication, naming, the
  group section and the node section, each appended to what the parsed configuration
  holds.
\<close>

definition Run_named_nodes :: "('g, 'r) env \<Rightarrow> node list \<Rightarrow> node list" where
  "Run_named_nodes env nodes =
     uniquefyNodesName (range_nameToNodes env) (deduplicateNodes (range_set env) nodes)"

definition Run_fill ::
  "('g, 'r) env \<Rightarrow> db_Group list \<Rightarrow> node list \<Rightarrow> ('g, 'r) daeConfig \<Rightarrow> ('g, 'r) daeConfig" where
  "Run_fill env gs nodes c =
     c\<lparr>Group := Group c @ map (group_entry gs) (range_mGroupNode env (mGroupNode_of nodes)),
       Node := Node c @ map node_entry nodes\<rparr>"

text \<open>
  Two ways to look at an emitted group spec when runs are compared. The head of a group
  spec is its name, its policy and, for each filter, the filter's name, its negation flag
  and the number of its parameters. A group spec up to order is the same with the
  parameters of each filter as a multiset: the node names of the group without their
  order.
\<close>

definition group_head :: "daeGroup \<Rightarrow> string \<times> FunctionListOrString \<times> (string \<times> bool \<times> nat) list" where
  "group_head g =
     (daeGroup_Name g, daeGroup_Policy g,
      map (\<lambda>f. (Function_Name f, Function_Not f, length (Function_Params f))) (daeGroup_Filter g))"

definition group_up_to_order ::
  "daeGroup \<Rightarrow> string \<times> FunctionListOrString \<times> (string \<times> bool \<times> Param multiset) list" where
  "group_up_to_order g =
     (daeGroup_Name g, daeGroup_Policy g,
      map (\<lambda>f. (Function_Name f, Function_Not f, mset (Function_Params f))) (daeGroup_Filter g))"

text \<open>\<^verbatim>\<open>FirstOrCreate(&sys)\<close> on the table of the running state.\<close>

definition FirstOrCreate_System :: "database \<Rightarrow> database" where
  "FirstOrCreate_System d =
     (case system d of
        Some sys \<Rightarrow> d
      | None \<Rightarrow>
          d\<lparr>system := Some \<lparr>Running = False, RunningConfigID = 0, RunningConfigVersion = 0,
              RunningDnsID = 0, RunningDnsVersion = 0, RunningRoutingID = 0,
              RunningRoutingVersion = 0, RunningGroupVersions = '''', RunningGroups = []\<rparr>\<rparr>)"

text \<open>Saving the running state after the orchestrator has answered with no error.\<close>

definition Run_save ::
  "('g, 'r) env \<Rightarrow> database \<Rightarrow> db_Config \<Rightarrow> db_Dns \<Rightarrow> db_Routing \<Rightarrow> db_Group list
     \<Rightarrow> (error + nat) \<times> database" where
  "Run_save env d mConfig mDns mRouting gs =
     (case fault env FirstOrCreateSystem of Some e \<Rightarrow> (Inl (DbError e), d) | None \<Rightarrow>
      let d1 = FirstOrCreate_System d;
          groupVersions = map (\<lambda>g. FormatUint (Group_Version g)) gs
      in
      case fault env UpdatesSystem of Some e \<Rightarrow> (Inl (DbError e), d1) | None \<Rightarrow>
      let d2 = d1\<lparr>system := map_option (\<lambda>sys. sys
                 \<lparr>Running := True,
                  RunningConfigID := Config_ID mConfig,
                  RunningConfigVersion := Config_Version mConfig,
                  RunningDnsID := Dns_ID mDns,
                  RunningDnsVersion := Dns_Version mDns,
                  RunningRoutingID := Routing_ID mRouting,
                  RunningRoutingVersion := Routing_Version mRouting,
                  RunningGroupVersions := Join groupVersions '',''\<rparr>) (system d1)\<rparr>
      in
      case fault env ReplaceRunningGroups of Some e \<Rightarrow> (Inl (DbError e), d2) | None \<Rightarrow>
      (Inr 1, d2\<lparr>system := map_option (\<lambda>sys. sys\<lparr>RunningGroups := map Group_ID gs\<rparr>) (system d2)\<rparr>))"

text \<open>
  Submitting a configuration and waiting for the answer. A run that never gets an answer
  never returns: its result is \<open>None\<close>.
\<close>

definition submit :: "('g, 'r) world \<Rightarrow> ('g, 'r) daeConfig \<Rightarrow> ('g, 'r) ReloadMessage \<times> ('g, 'r) world" where
  "submit w c =
     (let msg = \<lparr>Config = c, Callback = length (ChReloadConfigs w)\<rparr>
      in (msg, w\<lparr>ChReloadConfigs := ChReloadConfigs w @ [msg]\<rparr>))"

definition Run_dry :: "('g, 'r) env \<Rightarrow> ('g, 'r) world \<Rightarrow> (error + nat) option \<times> ('g, 'r) world" where
  "Run_dry env w =
     (let (msg, w1) = submit w (EmptyConfig env) in
      case callback_reply env msg of
        NoReply \<Rightarrow> (None, w1)
      | Reply (Some e) \<Rightarrow> (Some (Inl (FailedToDryrun e)), w1)
      | Reply None \<Rightarrow>
          (case fault env FirstOrCreateSystem of Some e \<Rightarrow> (Some (Inl (DbError e)), w1) | None \<Rightarrow>
           let d1 = FirstOrCreate_System (db w1) in
           case fault env UpdatesSystem of Some e \<Rightarrow> (Some (Inl (DbError e)), w1\<lparr>db := d1\<rparr>) | None \<Rightarrow>
           (Some (Inr 1),
            w1\<lparr>db := d1\<lparr>system := map_option (\<lambda>sys. sys\<lparr>Running := False\<rparr>) (system d1)\<rparr>\<rparr>)))"

definition Run_load :: "('g, 'r) env \<Rightarrow> ('g, 'r) world \<Rightarrow> (error + nat) option \<times> ('g, 'r) world" where
  "Run_load env w =
     (case Run_parse env (db w) of Inl e \<Rightarrow> (Some (Inl e), w) | Inr (mConfig, mDns, mRouting, c) \<Rightarrow>
      let outbounds = NecessaryOutbounds env (Routing c) in
      case Run_groups env (db w) outbounds of Inl e \<Rightarrow> (Some (Inl e), w) | Inr gs \<Rightarrow>
      case Run_notFound env outbounds gs of Some e \<Rightarrow> (Some (Inl e), w) | None \<Rightarrow>
      case Run_nodes env 0 gs of Inl e \<Rightarrow> (Some (Inl e), w) | Inr nodes \<Rightarrow>
      let (msg, w1) = submit w (Run_fill env gs (Run_named_nodes env nodes) c) in
      case callback_reply env msg of
        NoReply \<Rightarrow> (None, w1)
      | Reply (Some errReload) \<Rightarrow> (Some (Inl (FailedToLoad errReload)), w1)
      | Reply None \<Rightarrow>
          (let (r, d) = Run_save env (db w1) mConfig mDns mRouting gs
           in (Some r, w1\<lparr>db := d\<rparr>)))"

definition Run :: "('g, 'r) env \<Rightarrow> ('g, 'r) world \<Rightarrow> bool \<Rightarrow> (error + nat) option \<times> ('g, 'r) world" where
  "Run env w noLoad = (if noLoad then Run_dry env w else Run_load env w)"

section \<open>The reload loop: \<^verbatim>\<open>dae.Run\<close>\<close>

text \<open>
  A control plane is a number. The kernel programs ejected from the control plane \<open>c\<close> are
  \<open>Bpf c\<close>, a clone of its DNS cache is \<open>DnsCache c\<close>. What the loop does to the engine
  and to the callers is recorded as a trace of events.
\<close>

type_synonym ControlPlane = nat

datatype Bpf = Bpf ControlPlane

datatype DnsCache = DnsCache ControlPlane

datatype ('g, 'r) event =
    EjectBpf ControlPlane
  | CloneDnsCache ControlPlane
  | NewControlPlane "Bpf option" "DnsCache option" "('g, 'r) daeConfig"
  | CloseBpf Bpf
  | CloseControlPlane ControlPlane
  | InjectBpf ControlPlane Bpf
  | ListenAndServe ControlPlane
  | Serve ControlPlane
  | SendCallback nat bool
  | Fatalln

text \<open>
  The engine, as parameters: \<^verbatim>\<open>control.NewControlPlane\<close>, which may answer differently
  every time it is called (its first argument counts the calls); whether a control plane
  started with \<^verbatim>\<open>Serve\<close> ever signals that it is ready; and the error of closing a
  control plane, if any. The logger that the loop replaces on every reload is left out.
\<close>

record ('g, 'r) engine =
  control_NewControlPlane ::
    "nat \<Rightarrow> Bpf option \<Rightarrow> DnsCache option \<Rightarrow> (string \<times> string list) list \<Rightarrow> ('g, 'r) daeConfig
       \<Rightarrow> string + ControlPlane"
  serve_ready :: "ControlPlane \<Rightarrow> bool"
  close_error :: "ControlPlane \<Rightarrow> string option"

text \<open>
  \<^verbatim>\<open>newControlPlane\<close>: the node list goes to the engine under the empty subscription name;
  a configuration with a subscription section is refused.
\<close>

definition newControlPlane ::
  "('g, 'r) engine \<Rightarrow> nat \<Rightarrow> Bpf option \<Rightarrow> DnsCache option \<Rightarrow> ('g, 'r) daeConfig \<Rightarrow> string + ControlPlane" where
  "newControlPlane eng k bpf dnsCache conf =
     (let subscriptionToNodeList = (if length (Node conf) > 0 then [('''', Node conf)] else [])
      in if length (Subscription conf) > 0
         then Inl ''daeConfig.subscription is not supported in dae-wing''
         else control_NewControlPlane eng k bpf dnsCache subscriptionToNodeList conf)"

text \<open>
  The variables of the loop. \<open>st_calls\<close> counts the calls of \<^verbatim>\<open>newControlPlane\<close>;
  \<open>st_status\<close> tells whether the loop still receives: it stops at \<^verbatim>\<open>break loop\<close>, when
  \<^verbatim>\<open>log.Fatalln\<close> ends the process, and when it blocks for ever on a channel.
\<close>

datatype status = Receiving | Left | Exited | Blocked

record ('g, 'r) loop_state =
  st_c :: ControlPlane
  st_conf :: "('g, 'r) daeConfig"
  st_reloading :: bool
  st_isRollback :: bool
  st_chCallback :: "nat option"
  st_calls :: nat
  st_status :: status
  st_trace :: "('g, 'r) event list"

definition emit :: "('g, 'r) event list \<Rightarrow> ('g, 'r) loop_state \<Rightarrow> ('g, 'r) loop_state" where
  "emit evs s = s\<lparr>st_trace := st_trace s @ evs\<rparr>"

text \<open>The case \<^verbatim>\<open>nil\<close> of the loop: the listener of the control plane has stopped.\<close>

definition on_nil :: "('g, 'r) engine \<Rightarrow> ('g, 'r) loop_state \<Rightarrow> ('g, 'r) loop_state" where
  "on_nil eng s =
     (if st_reloading s
      then (let s1 = emit [Serve (st_c s)] (s\<lparr>st_reloading := False\<rparr>)
            in if \<not> serve_ready eng (st_c s) then s1\<lparr>st_status := Blocked\<rparr>
               else if \<not> st_isRollback s
                    then (case st_chCallback s of
                            None \<Rightarrow> s1\<lparr>st_status := Blocked\<rparr>
                          | Some ch \<Rightarrow> emit [SendCallback ch True] s1)
                    else s1)
      else s\<lparr>st_status := Left\<rparr>)"

text \<open>The default case: a reload message.\<close>

definition dnsCache_for :: "('g, 'r) loop_state \<Rightarrow> ('g, 'r) daeConfig \<Rightarrow> DnsCache option" where
  "dnsCache_for s newConf =
     (if IpVersionPrefer (Dns (st_conf s)) = IpVersionPrefer (Dns newConf)
      then Some (DnsCache (st_c s)) else None)"

definition install ::
  "('g, 'r) loop_state \<Rightarrow> ControlPlane \<Rightarrow> ('g, 'r) daeConfig \<Rightarrow> nat \<Rightarrow> ('g, 'r) loop_state" where
  "install s newC newConf callback =
     emit [InjectBpf newC (Bpf (st_c s)), CloseControlPlane (st_c s)]
       (s\<lparr>st_c := newC, st_conf := newConf, st_reloading := True, st_chCallback := Some callback\<rparr>)"

definition on_reload ::
  "('g, 'r) engine \<Rightarrow> ('g, 'r) loop_state \<Rightarrow> ('g, 'r) ReloadMessage \<Rightarrow> ('g, 'r) loop_state" where
  "on_reload eng s newReloadMsg =
     (let newConf = Config newReloadMsg;
          obj = Bpf (st_c s);
          dnsCache = dnsCache_for s newConf;
          s1 = emit ([EjectBpf (st_c s)]
                     @ (if dnsCache \<noteq> None then [CloneDnsCache (st_c s)] else [])
                     @ [NewControlPlane (Some obj) dnsCache newConf])
                 (s\<lparr>st_calls := st_calls s + 1\<rparr>)
      in case newControlPlane eng (st_calls s) (Some obj) dnsCache newConf of
           Inl err \<Rightarrow>
             (let s2 = emit [NewControlPlane (Some obj) dnsCache (st_conf s)]
                         (s1\<lparr>st_calls := st_calls s1 + 1\<rparr>)
              in case newControlPlane eng (st_calls s1) (Some obj) dnsCache (st_conf s) of
                   Inl err \<Rightarrow>
                     (emit [CloseBpf obj, CloseControlPlane (st_c s), Fatalln] s2)\<lparr>st_status := Exited\<rparr>
                 | Inr newC \<Rightarrow> install s2 newC (st_conf s) (Callback newReloadMsg))
         | Inr newC \<Rightarrow>
             install (s1\<lparr>st_isRollback := False\<rparr>) newC newConf (Callback newReloadMsg))"

definition loop_body ::
  "('g, 'r) engine \<Rightarrow> ('g, 'r) loop_state \<Rightarrow> ('g, 'r) ReloadMessage option \<Rightarrow> ('g, 'r) loop_state" where
  "loop_body eng s newReloadMsg =
     (case newReloadMsg of None \<Rightarrow> on_nil eng s | Some msg \<Rightarrow> on_reload eng s msg)"

text \<open>
  The loop over the messages that arrive on \<^verbatim>\<open>ChReloadConfigs\<close>. It handles no message
  once it has stopped.
\<close>

fun loop ::
  "('g, 'r) engine \<Rightarrow> ('g, 'r) loop_state \<Rightarrow> ('g, 'r) ReloadMessage option list \<Rightarrow> ('g, 'r) loop_state" where
  "loop eng s [] = s"
| "loop eng s (m # ms) =
     (if st_status s = Receiving then loop eng (loop_body eng s m) ms else s)"

text \<open>The loop of the dry run: every message is answered at once.\<close>

fun dryLoop :: "('g, 'r) event list \<Rightarrow> ('g, 'r) ReloadMessage option list \<Rightarrow> ('g, 'r) event list" where
  "dryLoop evs [] = evs"
| "dryLoop evs (None # ms) = evs"
| "dryLoop evs (Some newConf # ms) = dryLoop (evs @ [SendCallback (Callback newConf) True]) ms"

text \<open>
  \<^verbatim>\<open>dae.Run\<close> on the messages that arrive: whether it returns, and with which error,
  and the trace. It returns from the dry loop and after \<^verbatim>\<open>break loop\<close>, where it closes
  the control plane; it does not return while the loop receives, nor after the process
  has exited or the loop has blocked.
\<close>

datatype run_result = Returned "string option" | NotReturned status

definition dae_Run ::
  "('g, 'r) engine \<Rightarrow> ('g, 'r) daeConfig \<Rightarrow> bool \<Rightarrow> ('g, 'r) ReloadMessage option list
     \<Rightarrow> run_result \<times> ('g, 'r) event list" where
  "dae_Run eng conf dry msgs =
     (if dry then (Returned None, dryLoop [] msgs)
      else case newControlPlane eng 0 None None conf of
             Inl err \<Rightarrow> (Returned (Some err), [NewControlPlane None None conf])
           | Inr c \<Rightarrow>
               (let s0 = \<lparr>st_c = c, st_conf = conf, st_reloading = False, st_isRollback = False,
                          st_chCallback = None, st_calls = 1, st_status = Receiving,
                          st_trace = [NewControlPlane None None conf, ListenAndServe c]\<rparr>;
                    s = loop eng s0 msgs
                in if st_status s = Left
                   then (Returned (map_option (\<lambda>e. ''close control plane: '' @ e)
                                     (close_error eng (st_c s))),
                         st_trace s @ [CloseControlPlane (st_c s)])
                   else (NotReturned (st_status s), st_trace s)))"

section \<open>Updating a profile\<close>

text \<open>
  Both operations run in a transaction that the deferred function commits when the
  operation returns no error and rolls back otherwise: the caller sees the changes of a
  successful run and none of a failed one.
\<close>

definition end_tx :: "('g, 'r) world \<Rightarrow> ('e + 'a) \<times> ('g, 'r) world \<Rightarrow> ('e + 'a) \<times> ('g, 'r) world" where
  "end_tx w r = (case fst r of Inl err \<Rightarrow> (Inl err, w) | Inr x \<Rightarrow> r)"

definition newline :: string where
  "newline = [CHR 0x0A]"

record 'r routing_Resolver =
  DaeRouting :: 'r
  routing_Model :: db_Routing

text \<open>\<^verbatim>\<open>routing.Update\<close>: the new text is wrapped, parsed and then stored.\<close>

definition routing_Update ::
  "('g, 'r) env \<Rightarrow> ('g, 'r) world \<Rightarrow> string \<Rightarrow> string \<Rightarrow> (error + 'r routing_Resolver) \<times> ('g, 'r) world" where
  "routing_Update env w cursor routing =
     (case DecodeCursor env cursor of Inl err \<Rightarrow> (Inl (DecodeCursorError err), w) | Inr rid \<Rightarrow>
      end_tx w
        (case fault env FirstByID of Some e \<Rightarrow> (Inl (DbError e), w) | None \<Rightarrow>
         case find (\<lambda>r. Routing_ID r = rid) (routings (db w)) of None \<Rightarrow> (Inl ErrRecordNotFound, w) | Some m0 \<Rightarrow>
         let m = m0\<lparr>Routing_Routing := ''routing {'' @ newline @ routing @ newline @ ''}''\<rparr> in
         case ParseConfig env None None (Some (Routing_Routing m)) of
           Inl err \<Rightarrow> (Inl (BadCurrentRouting err), w)
         | Inr c \<Rightarrow>
             (case fault env UpdatesRow of Some e \<Rightarrow> (Inl (DbError e), w) | None \<Rightarrow>
              (Inr \<lparr>DaeRouting = Routing c, routing_Model = m\<rparr>,
               w\<lparr>db := (db w)\<lparr>routings :=
                    map (\<lambda>r. if Routing_ID r = rid
                              then r\<lparr>Routing_Routing := Routing_Routing m,
                                     Routing_Version := Routing_Version r + 1\<rparr>
                              else r) (routings (db w))\<rparr>\<rparr>))))"

record 'g config_Resolver =
  DaeGlobal :: 'g
  config_Model :: db_Config

text \<open>
  \<^verbatim>\<open>config.Update\<close>: the caller passes fields, not text; \<open>inputGlobal\<close> is what
  \<^verbatim>\<open>inputGlobal.Assign\<close> does to the global section. The text parsed is the stored one;
  the text stored is what the marshaller gives for the section after the assignment.
\<close>

definition config_Update ::
  "('g, 'r) env \<Rightarrow> ('g, 'r) world \<Rightarrow> string \<Rightarrow> ('g \<Rightarrow> 'g) \<Rightarrow> (error + 'g config_Resolver) \<times> ('g, 'r) world" where
  "config_Update env w cursor inputGlobal =
     (case DecodeCursor env cursor of Inl err \<Rightarrow> (Inl (DecodeCursorError err), w) | Inr cid \<Rightarrow>
      end_tx w
        (case fault env FirstByID of Some e \<Rightarrow> (Inl (DbError e), w) | None \<Rightarrow>
         case find (\<lambda>r. Config_ID r = cid) (configs (db w)) of None \<Rightarrow> (Inl ErrRecordNotFound, w) | Some m \<Rightarrow>
         case ParseConfig env (Some (Config_Global m)) None None of
           Inl err \<Rightarrow> (Inl (BadCurrentConfig err), w)
         | Inr c \<Rightarrow>
             (let glob = inputGlobal (Global c) in
              case MarshalSection env glob of Inl err \<Rightarrow> (Inl (MarshalError err), w) | Inr bytes \<Rightarrow>
              case fault env UpdatesRow of Some e \<Rightarrow> (Inl (DbError e), w) | None \<Rightarrow>
              (Inr \<lparr>DaeGlobal = glob, config_Model = m\<rparr>,
               w\<lparr>db := (db w)\<lparr>configs :=
                    map (\<lambda>r. if Config_ID r = cid
                              then r\<lparr>Config_Global := bytes, Config_Version := Config_Version r + 1\<rparr>
                              else r) (configs (db w))\<rparr>\<rparr>))))"

section \<open>Example inputs\<close>

text \<open>Three records, two of them with the link \<open>l1\<close>.\<close>

definition shared_link_example :: "node list" where
  "shared_link_example =
     [\<lparr>dbNode = \<lparr>Node_Link = ''l1'', Node_Name = ''a'', Node_Tag = None, Node_SubscriptionID = None\<rparr>,
        groups = [0], uniqueName = ''''\<rparr>,
      \<lparr>dbNode = \<lparr>Node_Link = ''l2'', Node_Name = ''b'', Node_Tag = None, Node_SubscriptionID = None\<rparr>,
        groups = [0], uniqueName = ''''\<rparr>,
      \<lparr>dbNode = \<lparr>Node_Link = ''l1'', Node_Name = ''c'', Node_Tag = None, Node_SubscriptionID = Some 4\<rparr>,
        groups = [1], uniqueName = ''''\<rparr>]"

definition tagged_example :: "node list" where
  "tagged_example =
     [\<lparr>dbNode = \<lparr>Node_Link = ''l1'', Node_Name = ''a'', Node_Tag = None, Node_SubscriptionID = None\<rparr>,
        groups = [0], uniqueName = ''''\<rparr>,
      \<lparr>dbNode = \<lparr>Node_Link = ''l2'', Node_Name = ''b'', Node_Tag = Some ''a'', Node_SubscriptionID = Some 7\<rparr>,
        groups = [0], uniqueName = ''''\<rparr>,
      \<lparr>dbNode = \<lparr>Node_Link = ''l3'', Node_Name = ''a'', Node_Tag = None, Node_SubscriptionID = None\<rparr>,
        groups = [1], uniqueName = ''''\<rparr>]"

text \<open>A database with one group of two nodes that share a name.\<close>

definition demo_db :: database where
  "demo_db =
     \<lparr>configs = [\<lparr>Config_ID = 1, Config_Global = ''global {}'', Config_Selected = True, Config_Version = 3\<rparr>],
      dnss = [\<lparr>Dns_ID = 2, Dns_Dns = ''dns {}'', Dns_Selected = True, Dns_Version = 5\<rparr>],
      routings = [\<lparr>Routing_ID = 4, Routing_Routing = ''routing { fallback: proxy }'',
                   Routing_Selected = True, Routing_Version = 12\<rparr>],
      group_rows =
        [\<lparr>Group_ID = 9, Group_Name = ''proxy'', Group_Policy = ''min'', Group_PolicyParams = [],
          Group_Version = 7, Group_Subscription = [],
          Group_Node =
            [\<lparr>Node_Link = ''l1'', Node_Name = ''a'', Node_Tag = None, Node_SubscriptionID = None\<rparr>,
             \<lparr>Node_Link = ''l2'', Node_Name = ''a'', Node_Tag = None, Node_SubscriptionID = None\<rparr>]\<rparr>],
      system = None\<rparr>"

definition demo_config :: "(unit, string list) daeConfig" where
  "demo_config =
     \<lparr>Global = (), Dns = \<lparr>IpVersionPrefer = 0\<rparr>, Routing = [''proxy''],
      Group = [], Node = [], Subscription = []\<rparr>"

definition demo_env :: "(unit, string list) env" where
  "demo_env =
     \<lparr>ParseConfig = (\<lambda>g d r. Inr demo_config),
      NecessaryOutbounds = (\<lambda>r. r),
      EmptyConfig = demo_config\<lparr>Routing := []\<rparr>,
      DecodeCursor = (\<lambda>s. Inr (length s)),
      MarshalSection = (\<lambda>g. Inr ''global {}''),
      fault = (\<lambda>op. None),
      callback_reply = (\<lambda>msg. Reply None),
      range_set = (\<lambda>es. es),
      range_nameToNodes = (\<lambda>es. es),
      range_nameSet = (\<lambda>es. es),
      range_mGroupNode = (\<lambda>es. es)\<rparr>"

definition demo_world :: "(unit, string list) world" where
  "demo_world = \<lparr>db = demo_db, ChReloadConfigs = []\<rparr>"

text \<open>
  The example database with other nodes attached to its group: three nodes that want
  different names; two nodes with the same tag; and a tagged node beside an untagged node
  whose name is empty.
\<close>

definition one_group_world :: "db_Node list \<Rightarrow> (unit, string list) world" where
  "one_group_world ns =
     \<lparr>db = demo_db\<lparr>group_rows :=
        [\<lparr>Group_ID = 9, Group_Name = ''proxy'', Group_Policy = ''min'', Group_PolicyParams = [],
          Group_Version = 7, Group_Subscription = [], Group_Node = ns\<rparr>]\<rparr>,
      ChReloadConfigs = []\<rparr>"

definition plain_nodes :: "db_Node list" where
  "plain_nodes =
     [\<lparr>Node_Link = ''l1'', Node_Name = ''a'', Node_Tag = None, Node_SubscriptionID = None\<rparr>,
      \<lparr>Node_Link = ''l2'', Node_Name = ''b'', Node_Tag = None, Node_SubscriptionID = None\<rparr>,
      \<lparr>Node_Link = ''l3'', Node_Name = ''c'', Node_Tag = Some ''t'', Node_SubscriptionID = None\<rparr>]"



text \<open>An engine that cannot build a control plane for the node list \<open>bad\<close>.\<close>

definition demo_engine :: "(unit, string list) engine" where
  "demo_engine =
     \<lparr>control_NewControlPlane =
        (\<lambda>k bpf dnsCache subscriptionToNodeList conf.
           if Node conf = [''bad''] then Inl ''cannot dial'' else Inr k),
      serve_ready = (\<lambda>c. True),
      close_error = (\<lambda>c. None)\<rparr>"

definition bad_config :: "(unit, string list) daeConfig" where
  "bad_config = demo_config\<lparr>Node := [''bad'']\<rparr>"

text \<open>The routing of this environment refers to the group \<open>G1\<close>, which is not stored.\<close>

definition G1_env :: "(unit, string list) env" where
  "G1_env = demo_env\<lparr>ParseConfig := (\<lambda>g d r. Inr (demo_config\<lparr>Routing := [''proxy'', ''direct'', ''G1'']\<rparr>)),
                     range_nameSet := rev\<rparr>"

definition demo_state :: "(unit, string list) loop_state" where
  "demo_state =
     \<lparr>st_c = 0, st_conf = demo_config, st_reloading = False, st_isRollback = False,
      st_chCallback = None, st_calls = 1, st_status = Receiving,
      st_trace = [NewControlPlane None None demo_config, ListenAndServe 0]\<rparr>"

text \<open>An engine that builds nothing after its first control plane.\<close>

definition broken_engine :: "(unit, string list) engine" where
  "broken_engine =
     \<lparr>control_NewControlPlane =
        (\<lambda>k bpf dnsCache subscriptionToNodeList conf. if k = 0 then Inr 0 else Inl ''out of memory''),
      serve_ready = (\<lambda>c. True),
      close_error = (\<lambda>c. None)\<rparr>"

definition ipv6_config :: "(unit, string list) daeConfig" where
  "ipv6_config = demo_config\<lparr>Dns := \<lparr>IpVersionPrefer = 6\<rparr>\<rparr>"

chapter \<open>Properties\<close>

section \<open>Iteration orders\<close>

lemma range_order_set: "range_order \<rho> \<Longrightarrow> set (\<rho> es) = set es"
  by (metis range_order_def mset_eq_setD)

lemma range_order_distinct_map: "range_order \<rho> \<Longrightarrow> distinct (map f (\<rho> es)) = distinct (map f es)"
proof -
  assume "range_order \<rho>"
  then have "mset (map f (\<rho> es)) = mset (map f es)"
    by (simp add: range_order_def)
  then show ?thesis by (rule mset_eq_imp_distinct_iff)
qed

lemma demo_orders: "range_orders demo_env" "range_orders (demo_env\<lparr>range_set := rev\<rparr>)"
  by (simp_all add: range_orders_def range_order_def demo_env_def)

section \<open>Deduplication\<close>

lemma set_insert_lookup:
  "map_of (set_insert n s) =
     (map_of s)(Node_Link (dbNode n) \<mapsto>
        (case map_of s (Node_Link (dbNode n)) of
           Some oldNode \<Rightarrow> oldNode\<lparr>groups := groups oldNode @ groups n\<rparr>
         | None \<Rightarrow> n))"
  by (simp add: set_insert_def update_conv' split: option.splits)

lemma set_insert_keys: "distinct (map fst s) \<Longrightarrow> distinct (map fst (set_insert n s))"
  by (simp add: set_insert_def distinct_update split: option.splits)

lemma fold_set_insert_keys: "distinct (map fst s) \<Longrightarrow> distinct (map fst (fold set_insert nodes s))"
  by (induction nodes arbitrary: s) (simp_all add: set_insert_keys)

lemma fold_set_insert_lookup:
  "map_of (fold set_insert nodes s) l =
     (case map_of s l of
        Some oldNode \<Rightarrow>
          Some (oldNode\<lparr>groups := groups oldNode @
                  concat (map groups (filter (\<lambda>n. Node_Link (dbNode n) = l) nodes))\<rparr>)
      | None \<Rightarrow>
          (case filter (\<lambda>n. Node_Link (dbNode n) = l) nodes of
             [] \<Rightarrow> None
           | f # rest \<Rightarrow> Some (f\<lparr>groups := groups f @ concat (map groups rest)\<rparr>)))"
proof (induction nodes arbitrary: s)
  case Nil
  show ?case by (simp split: option.splits)
next
  case (Cons n ns)
  show ?case
  proof (cases "Node_Link (dbNode n) = l")
    case True
    then show ?thesis
      by (simp add: Cons.IH set_insert_lookup split: option.splits)
  next
    case False
    then show ?thesis
      by (simp add: Cons.IH set_insert_lookup split: option.splits)
  qed
qed

lemma filter_key_single:
  "distinct (map fst xs) \<Longrightarrow> (l, v) \<in> set xs \<Longrightarrow> filter (\<lambda>e. fst e = l) xs = [(l, v)]"
proof (induction xs)
  case Nil
  then show ?case by simp
next
  case (Cons x xs)
  show ?case
  proof (cases "x = (l, v)")
    case True
    with Cons.prems(1) have "\<forall>e\<in>set xs. fst e \<noteq> l" by force
    then have "filter (\<lambda>e. fst e = l) xs = []" by (simp add: filter_empty_conv)
    with True show ?thesis by simp
  next
    case False
    with Cons.prems have mem: "(l, v) \<in> set xs" by simp
    then have "l \<in> fst ` set xs" by force
    with Cons.prems(1) have "fst x \<noteq> l" by auto
    with Cons mem show ?thesis by simp
  qed
qed

text \<open>
  Claim C5. Whatever order the map is iterated in, the result of \<^verbatim>\<open>deduplicateNodes\<close> holds,
  for every link that occurs in the input, exactly one node with that link: the first
  record with the link, and its group list is the concatenation, in input order, of the
  group lists of all records with the link (so its group set is their union). Links are
  compared as strings.
\<close>

theorem deduplicateNodes_one_per_link:
  assumes order: "range_order \<rho>" and n: "n \<in> set nodes"
  shows "filter (\<lambda>m. Node_Link (dbNode m) = Node_Link (dbNode n)) (deduplicateNodes \<rho> nodes) =
           [(hd (filter (\<lambda>m. Node_Link (dbNode m) = Node_Link (dbNode n)) nodes))
              \<lparr>groups := concat (map groups
                  (filter (\<lambda>m. Node_Link (dbNode m) = Node_Link (dbNode n)) nodes))\<rparr>]"
proof -
  let ?l = "Node_Link (dbNode n)"
  let ?same = "filter (\<lambda>m. Node_Link (dbNode m) = ?l) nodes"
  let ?es = "fold set_insert nodes []"
  have keys: "distinct (map fst ?es)" by (rule fold_set_insert_keys) simp
  have link: "Node_Link (dbNode v) = k" if "(k, v) \<in> set ?es" for k v
  proof -
    from that keys have "map_of ?es k = Some v" by simp
    then show ?thesis
      by (auto simp: fold_set_insert_lookup split: list.splits dest: filter_eq_ConsD)
  qed
  from n have "?same \<noteq> []" by (auto simp: filter_empty_conv)
  then obtain f rest where same: "?same = f # rest" by (cases ?same) auto
  let ?v = "f\<lparr>groups := concat (map groups ?same)\<rparr>"
  have "map_of ?es ?l = Some ?v"
    by (simp add: fold_set_insert_lookup same)
  then have "(?l, ?v) \<in> set ?es" by (rule map_of_SomeD)
  then have mem: "(?l, ?v) \<in> set (\<rho> ?es)" using order by (simp add: range_order_set)
  have keys': "distinct (map fst (\<rho> ?es))"
    using keys order by (simp add: range_order_distinct_map)
  have "filter (\<lambda>m. Node_Link (dbNode m) = ?l) (map snd (\<rho> ?es))
          = map snd (filter (\<lambda>e. Node_Link (dbNode (snd e)) = ?l) (\<rho> ?es))"
    by (simp add: filter_map comp_def)
  also have "filter (\<lambda>e. Node_Link (dbNode (snd e)) = ?l) (\<rho> ?es) = filter (\<lambda>e. fst e = ?l) (\<rho> ?es)"
  proof (rule filter_cong [OF refl])
    fix e assume "e \<in> set (\<rho> ?es)"
    then have "(fst e, snd e) \<in> set ?es" using order by (simp add: range_order_set)
    from link [OF this] show "(Node_Link (dbNode (snd e)) = ?l) = (fst e = ?l)" by simp
  qed
  also have "\<dots> = [(?l, ?v)]" using keys' mem by (rule filter_key_single)
  finally show ?thesis by (simp add: deduplicateNodes_def same)
qed

text \<open>
  With the map iterated in reverse order, the first record with the link \<open>l1\<close> is kept
  and has the groups of both.
\<close>

theorem deduplicateNodes_one_per_link_witness:
  "filter (\<lambda>m. Node_Link (dbNode m) = ''l1'') (deduplicateNodes rev shared_link_example)
   = [\<lparr>dbNode = \<lparr>Node_Link = ''l1'', Node_Name = ''a'', Node_Tag = None, Node_SubscriptionID = None\<rparr>,
        groups = [0, 1], uniqueName = ''''\<rparr>]"
proof -
  have order: "range_order (rev :: (string \<times> node) list \<Rightarrow> _)"
    by (simp add: range_order_def)
  have mem: "shared_link_example ! 0 \<in> set shared_link_example"
    by (simp add: shared_link_example_def)
  show ?thesis
    using deduplicateNodes_one_per_link [OF order mem]
    by (simp add: shared_link_example_def)
qed

section \<open>Naming\<close>

lemma wantedName_loop_fresh: "map_of m (wantedName_loop m base wanted j) = None"
  by (induction m base wanted j rule: wantedName_loop.induct)
     (subst wantedName_loop.simps, simp)

lemma insort_key_past:
  "\<forall>t\<in>set ts. f t < f x \<Longrightarrow> insort_key f x (ts @ us) = ts @ insort_key f x us"
  by (induction ts) auto

lemma insort_key_front:
  "\<forall>u\<in>set us. f x \<le> f u \<Longrightarrow> insort_key f x us = x # us"
  by (cases us) auto

lemma SliceStable_hasTag_partition:
  "SliceStable_hasTag nodes =
     filter (\<lambda>n. Node_Tag (dbNode n) \<noteq> None) nodes @ filter (\<lambda>n. Node_Tag (dbNode n) = None) nodes"
proof (induction nodes)
  case Nil
  show ?case by (simp add: SliceStable_hasTag_def)
next
  case (Cons x xs)
  let ?T = "filter (\<lambda>n. Node_Tag (dbNode n) \<noteq> None) xs"
  let ?U = "filter (\<lambda>n. Node_Tag (dbNode n) = None) xs"
  from Cons have s: "sort_key tag_rank xs = ?T @ ?U" by (simp add: SliceStable_hasTag_def)
  show ?case
  proof (cases "Node_Tag (dbNode x)")
    case None
    then have "\<forall>t\<in>set ?T. tag_rank t < tag_rank x" by (auto simp: tag_rank_def)
    then have "insort_key tag_rank x (?T @ ?U) = ?T @ insort_key tag_rank x ?U"
      by (rule insort_key_past)
    moreover have "insort_key tag_rank x ?U = x # ?U"
      using None by (intro insort_key_front) (auto simp: tag_rank_def)
    ultimately show ?thesis using None s by (simp add: SliceStable_hasTag_def)
  next
    case (Some t)
    have "insort_key tag_rank x (?T @ ?U) = x # ?T @ ?U"
      using Some by (intro insort_key_front) (auto simp: tag_rank_def)
    then show ?thesis using Some s by (simp add: SliceStable_hasTag_def)
  qed
qed

subsection \<open>Association lists\<close>

lemma update_keeps_other:
  "(a, b) \<in> set m \<Longrightarrow> a \<noteq> k \<Longrightarrow> (a, b) \<in> set (AList.update k v m)"
  by (induction m) auto

lemma update_has_new: "(k, v) \<in> set (AList.update k v m)"
  by (induction m) auto

lemma update_entries: "set (AList.update k v m) \<subseteq> insert (k, v) (set m)"
  by (induction m) auto

lemma update_values_distinct:
  "distinct (map snd m) \<Longrightarrow> v \<notin> snd ` set m \<Longrightarrow> distinct (map snd (AList.update k v m))"
proof (induction m)
  case Nil
  show ?case by simp
next
  case (Cons p ps)
  have "snd ` set (AList.update k v ps) \<subseteq> insert v (snd ` set ps)"
    using update_entries [of k v ps] by force
  with Cons show ?case by (cases p) auto
qed

subsection \<open>The name table\<close>

lemma nameToNodes_loop_keys: "distinct (map fst m) \<Longrightarrow> distinct (map fst (nameToNodes_loop ns i m))"
  by (induction ns arbitrary: i m) (simp_all add: distinct_update)


lemma nameToNodes_loop_values:
  "distinct (map snd m) \<Longrightarrow> \<forall>e\<in>set m. snd e < i \<Longrightarrow>
     distinct (map snd (nameToNodes_loop ns i m)) \<and> (\<forall>e\<in>set (nameToNodes_loop ns i m). snd e < i + length ns)"
proof (induction ns arbitrary: i m)
  case Nil
  then show ?case by simp
next
  case (Cons n ns)
  let ?m = "AList.update (wantedName m n) i m"
  have d: "distinct (map snd ?m)"
    using Cons.prems by (intro update_values_distinct) auto
  have b: "\<forall>e\<in>set ?m. snd e < i + 1"
    using Cons.prems(2) update_entries [of "wantedName m n" i m] by fastforce
  from Cons.IH [OF d b] show ?case by simp
qed

lemma nameToNodes_loop_persists:
  "(name, k) \<in> set m \<Longrightarrow> \<forall>n\<in>set ns. Node_Tag (dbNode n) \<noteq> Some name \<Longrightarrow>
     (name, k) \<in> set (nameToNodes_loop ns i m)"
proof (induction ns arbitrary: i m)
  case Nil
  then show ?case by simp
next
  case (Cons n ns)
  have "wantedName m n \<noteq> name"
  proof (cases "Node_Tag (dbNode n)")
    case None
    have "map_of m (wantedName m n) = None"
      using None by (simp add: wantedName_def wantedName_loop_fresh)
    with Cons.prems(1) show ?thesis
      by (metis map_of_eq_None_iff fst_conv image_eqI)
  next
    case (Some t)
    with Cons.prems(2) show ?thesis by (auto simp: wantedName_def)
  qed
  with Cons.prems(1) have "(name, k) \<in> set (AList.update (wantedName m n) i m)"
    by (intro update_keeps_other) auto
  with Cons show ?case by simp
qed

lemma nameToNodes_loop_append:
  "nameToNodes_loop (xs @ ys) i m = nameToNodes_loop ys (i + length xs) (nameToNodes_loop xs i m)"
  by (induction xs arbitrary: i m) simp_all

lemma nameToNodes_loop_entry:
  assumes k: "k < length ns"
    and later: "\<forall>j. k < j \<and> j < length ns \<longrightarrow>
        Node_Tag (dbNode (ns ! j)) \<noteq> Some (wantedName (nameToNodes_loop (take k ns) i m) (ns ! k))"
  shows "(wantedName (nameToNodes_loop (take k ns) i m) (ns ! k), i + k) \<in> set (nameToNodes_loop ns i m)"
proof -
  let ?pre = "take k ns" and ?post = "drop (Suc k) ns"
  let ?m = "nameToNodes_loop ?pre i m"
  let ?w = "wantedName ?m (ns ! k)"
  have split: "ns = ?pre @ (ns ! k) # ?post"
    using k by (rule id_take_nth_drop)
  have len: "length ?pre = k" using k by simp
  have "nameToNodes_loop ns i m = nameToNodes_loop ((ns ! k) # ?post) (i + k) ?m"
    using nameToNodes_loop_append [of ?pre "(ns ! k) # ?post" i m] split len by simp
  then have run: "nameToNodes_loop ns i m = nameToNodes_loop ?post (i + k + 1) (AList.update ?w (i + k) ?m)"
    by simp
  have "\<forall>n\<in>set ?post. Node_Tag (dbNode n) \<noteq> Some ?w"
  proof
    fix n assume "n \<in> set ?post"
    then obtain j where j: "j < length ?post" "n = ?post ! j"
      by (auto simp: in_set_conv_nth)
    then have "n = ns ! (Suc k + j)" "Suc k + j < length ns" using k by auto
    with later show "Node_Tag (dbNode n) \<noteq> Some ?w" by auto
  qed
  with update_has_new [of ?w "i + k" ?m]
  have "(?w, i + k) \<in> set (nameToNodes_loop ?post (i + k + 1) (AList.update ?w (i + k) ?m))"
    by (rule nameToNodes_loop_persists)
  with run show ?thesis by simp
qed

lemma nameToNodes_loop_tagged_entry:
  assumes "k < length ns" and "Node_Tag (dbNode (ns ! k)) = Some t"
    and "\<forall>j. k < j \<and> j < length ns \<longrightarrow> Node_Tag (dbNode (ns ! j)) \<noteq> Some t"
  shows "(t, i + k) \<in> set (nameToNodes_loop ns i m)"
  using nameToNodes_loop_entry [of k ns i m] assms by (simp add: wantedName_def)

lemma nameToNodes_loop_untagged_entry:
  assumes "k < length ns"
    and "\<forall>j. k < j \<and> j < length ns \<longrightarrow> Node_Tag (dbNode (ns ! j)) = None"
  shows "\<exists>w. (w, i + k) \<in> set (nameToNodes_loop ns i m)"
  using nameToNodes_loop_entry [of k ns i m] assms by auto

subsection \<open>The final assignment\<close>

lemma fold_assign_length: "length (fold assign_uniqueName es ns) = length ns"
  by (induction es arbitrary: ns) (simp_all add: assign_uniqueName_def)

lemma fold_assign_miss: "k \<notin> snd ` set es \<Longrightarrow> fold assign_uniqueName es ns ! k = ns ! k"
  by (induction es arbitrary: ns) (auto simp: assign_uniqueName_def)

lemma fold_assign_hit:
  "distinct (map snd es) \<Longrightarrow> (name, k) \<in> set es \<Longrightarrow> k < length ns \<Longrightarrow>
     fold assign_uniqueName es ns ! k = (ns ! k)\<lparr>uniqueName := name\<rparr>"
proof (induction es arbitrary: ns)
  case Nil
  then show ?case by simp
next
  case (Cons e es)
  show ?case
  proof (cases "e = (name, k)")
    case True
    with Cons.prems have "k \<notin> snd ` set es" by auto
    then have "fold assign_uniqueName es (assign_uniqueName e ns) ! k = assign_uniqueName e ns ! k"
      by (rule fold_assign_miss)
    moreover have "assign_uniqueName e ns ! k = (ns ! k)\<lparr>uniqueName := name\<rparr>"
      using True Cons.prems(3) by (simp add: assign_uniqueName_def)
    ultimately show ?thesis by simp
  next
    case False
    with Cons.prems have mem: "(name, k) \<in> set es" and d: "distinct (map snd es)" by auto
    from mem have "k \<in> snd ` set es" by force
    moreover from Cons.prems(1) have "snd e \<notin> snd ` set es" by simp
    ultimately have ne: "snd e \<noteq> k" by auto
    have "fold assign_uniqueName es (assign_uniqueName e ns) ! k
            = (assign_uniqueName e ns ! k)\<lparr>uniqueName := name\<rparr>"
      using d mem Cons.prems(3) by (intro Cons.IH) (simp_all add: assign_uniqueName_def)
    moreover have "assign_uniqueName e ns ! k = ns ! k"
      using ne by (simp add: assign_uniqueName_def)
    ultimately show ?thesis by simp
  qed
qed

lemma fold_assign_dbNode:
  "\<forall>e\<in>set es. snd e < length ns \<Longrightarrow> map dbNode (fold assign_uniqueName es ns) = map dbNode ns"
proof (induction es arbitrary: ns)
  case Nil
  show ?case by simp
next
  case (Cons e es)
  have "map dbNode (assign_uniqueName e ns) = map dbNode ns"
    using Cons.prems by (simp add: assign_uniqueName_def map_update list_update_same_conv)
  moreover have "length (assign_uniqueName e ns) = length ns" by (simp add: assign_uniqueName_def)
  ultimately show ?case using Cons by simp
qed

lemma fold_assign_groups:
  "\<forall>e\<in>set es. snd e < length ns \<Longrightarrow> map groups (fold assign_uniqueName es ns) = map groups ns"
proof (induction es arbitrary: ns)
  case Nil
  show ?case by simp
next
  case (Cons e es)
  have "map groups (assign_uniqueName e ns) = map groups ns"
    using Cons.prems by (simp add: assign_uniqueName_def map_update list_update_same_conv)
  moreover have "length (assign_uniqueName e ns) = length ns" by (simp add: assign_uniqueName_def)
  ultimately show ?case using Cons by simp
qed

subsection \<open>Tags\<close>

lemma node_tags_mem:
  "k < length ns \<Longrightarrow> Node_Tag (dbNode (ns ! k)) = Some t \<Longrightarrow> t \<in> set (node_tags ns)"
proof -
  assume k: "k < length ns" and t: "Node_Tag (dbNode (ns ! k)) = Some t"
  from k have "ns ! k \<in> set ns" by (rule nth_mem)
  with t show ?thesis
    by (force simp: node_tags_def map_filter_def image_iff)
qed

lemma node_tags_distinct_nth:
  "distinct (node_tags ns) \<Longrightarrow> k < j \<Longrightarrow> j < length ns \<Longrightarrow>
     Node_Tag (dbNode (ns ! k)) = Some t \<Longrightarrow> Node_Tag (dbNode (ns ! j)) \<noteq> Some t"
proof (induction ns arbitrary: k j)
  case Nil
  then show ?case by simp
next
  case (Cons x xs)
  from Cons.prems(2) obtain j' where j: "j = Suc j'" by (cases j) auto
  show ?case
  proof (cases k)
    case 0
    with Cons.prems have "t \<notin> set (node_tags xs)"
      by (simp add: node_tags_def map_filter_simps)
    with node_tags_mem [of j' xs t] Cons.prems(3) j show ?thesis by auto
  next
    case (Suc k')
    from Cons.prems(1) have "distinct (node_tags xs)"
      by (simp add: node_tags_def map_filter_simps split: option.splits)
    from Cons.IH [OF this, of k' j'] Cons.prems Suc j show ?thesis by simp
  qed
qed

lemma node_tags_sorted: "node_tags (SliceStable_hasTag nodes) = node_tags nodes"
proof -
  have a: "node_tags (filter (\<lambda>n. Node_Tag (dbNode n) \<noteq> None) ns) = node_tags ns" for ns
    by (simp add: node_tags_def map_filter_def)
  have b: "node_tags (filter (\<lambda>n. Node_Tag (dbNode n) = None) ns) = []" for ns
    by (auto simp: node_tags_def map_filter_def filter_empty_conv)
  have c: "node_tags (xs @ ys) = node_tags xs @ node_tags ys" for xs ys
    by (simp add: node_tags_def map_filter_def)
  show ?thesis unfolding SliceStable_hasTag_partition c a b by simp
qed

lemma sorted_untagged_suffix:
  assumes "k < j" "j < length (SliceStable_hasTag nodes)"
    and "Node_Tag (dbNode (SliceStable_hasTag nodes ! k)) = None"
  shows "Node_Tag (dbNode (SliceStable_hasTag nodes ! j)) = None"
proof -
  let ?T = "filter (\<lambda>n. Node_Tag (dbNode n) \<noteq> None) nodes"
  let ?U = "filter (\<lambda>n. Node_Tag (dbNode n) = None) nodes"
  have s: "SliceStable_hasTag nodes = ?T @ ?U" by (rule SliceStable_hasTag_partition)
  have "\<not> k < length ?T"
  proof
    assume "k < length ?T"
    then have "?T ! k \<in> set ?T" and "(?T @ ?U) ! k = ?T ! k"
      by (rule nth_mem, simp add: nth_append)
    with assms(3) s show False by auto
  qed
  with assms(1) have "\<not> j < length ?T" by simp
  with assms(2) s have "j - length ?T < length ?U" and e: "(?T @ ?U) ! j = ?U ! (j - length ?T)"
    by (simp_all add: nth_append)
  then have "?U ! (j - length ?T) \<in> set ?U" by (intro nth_mem)
  with s e show ?thesis by auto
qed

lemma nameToNodes_values0:
  "distinct (map snd (nameToNodes_loop ns 0 [])) \<and> (\<forall>e\<in>set (nameToNodes_loop ns 0 []). snd e < length ns)"
  using nameToNodes_loop_values [of "[]" 0 ns] by simp

lemma uniquefyNodesName_length:
  "length (uniquefyNodesName \<rho> nodes) = length (SliceStable_hasTag nodes)"
  by (simp add: uniquefyNodesName_def Let_def fold_assign_length)

lemma uniquefyNodesName_named:
  assumes "range_order \<rho>"
    and "(name, k) \<in> set (nameToNodes_loop (SliceStable_hasTag nodes) 0 [])"
  shows "uniquefyNodesName \<rho> nodes ! k = (SliceStable_hasTag nodes ! k)\<lparr>uniqueName := name\<rparr>"
proof -
  let ?L = "SliceStable_hasTag nodes"
  let ?m = "nameToNodes_loop ?L 0 []"
  have "distinct (map snd (\<rho> ?m))"
    using nameToNodes_values0 [of ?L] assms(1) by (simp add: range_order_distinct_map)
  moreover have "(name, k) \<in> set (\<rho> ?m)"
    using assms by (simp add: range_order_set)
  moreover have "k < length ?L"
    using nameToNodes_values0 [of ?L] assms(2) by force
  ultimately have "fold assign_uniqueName (\<rho> ?m) ?L ! k = (?L ! k)\<lparr>uniqueName := name\<rparr>"
    by (rule fold_assign_hit)
  then show ?thesis by (simp add: uniquefyNodesName_def Let_def)
qed

lemma uniquefyNodesName_unnamed:
  assumes "range_order \<rho>"
    and "k \<notin> snd ` set (nameToNodes_loop (SliceStable_hasTag nodes) 0 [])"
  shows "uniquefyNodesName \<rho> nodes ! k = SliceStable_hasTag nodes ! k"
proof -
  let ?L = "SliceStable_hasTag nodes"
  let ?m = "nameToNodes_loop ?L 0 []"
  have "k \<notin> snd ` set (\<rho> ?m)"
    using assms by (simp add: range_order_set)
  then have "fold assign_uniqueName (\<rho> ?m) ?L ! k = ?L ! k"
    by (rule fold_assign_miss)
  then show ?thesis by (simp add: uniquefyNodesName_def Let_def)
qed

lemma uniquefyNodesName_dbNode:
  assumes "range_order \<rho>"
  shows "map dbNode (uniquefyNodesName \<rho> nodes) = map dbNode (SliceStable_hasTag nodes)"
proof -
  let ?L = "SliceStable_hasTag nodes"
  let ?m = "nameToNodes_loop ?L 0 []"
  have "\<forall>e\<in>set (\<rho> ?m). snd e < length ?L"
    using nameToNodes_values0 [of ?L] assms by (simp add: range_order_set)
  then have "map dbNode (fold assign_uniqueName (\<rho> ?m) ?L) = map dbNode ?L"
    by (rule fold_assign_dbNode)
  then show ?thesis by (simp add: uniquefyNodesName_def Let_def)
qed

lemma uniquefyNodesName_groups:
  assumes "range_order \<rho>"
  shows "map groups (uniquefyNodesName \<rho> nodes) = map groups (SliceStable_hasTag nodes)"
proof -
  let ?L = "SliceStable_hasTag nodes"
  let ?m = "nameToNodes_loop ?L 0 []"
  have "\<forall>e\<in>set (\<rho> ?m). snd e < length ?L"
    using nameToNodes_values0 [of ?L] assms by (simp add: range_order_set)
  then have "map groups (fold assign_uniqueName (\<rho> ?m) ?L) = map groups ?L"
    by (rule fold_assign_groups)
  then show ?thesis by (simp add: uniquefyNodesName_def Let_def)
qed

lemma uniquefyNodesName_dbNode_nth:
  assumes "range_order \<rho>" and "k < length (SliceStable_hasTag nodes)"
  shows "dbNode (uniquefyNodesName \<rho> nodes ! k) = dbNode (SliceStable_hasTag nodes ! k)"
proof -
  have "map dbNode (uniquefyNodesName \<rho> nodes) ! k = map dbNode (SliceStable_hasTag nodes) ! k"
    using assms(1) by (simp add: uniquefyNodesName_dbNode)
  with assms(2) show ?thesis by (simp add: uniquefyNodesName_length)
qed

lemma all_nodes_named:
  assumes tags: "distinct (node_tags nodes)" and k: "k < length (SliceStable_hasTag nodes)"
  shows "\<exists>name. (name, k) \<in> set (nameToNodes_loop (SliceStable_hasTag nodes) 0 []) \<and>
           (\<forall>t. Node_Tag (dbNode (SliceStable_hasTag nodes ! k)) = Some t \<longrightarrow> name = t)"
proof (cases "Node_Tag (dbNode (SliceStable_hasTag nodes ! k))")
  case None
  then have "\<forall>j. k < j \<and> j < length (SliceStable_hasTag nodes) \<longrightarrow>
      Node_Tag (dbNode (SliceStable_hasTag nodes ! j)) = None"
    using sorted_untagged_suffix [of k _ nodes] by blast
  from nameToNodes_loop_untagged_entry [OF k this, of 0 "[]"] None show ?thesis by auto
next
  case (Some t)
  have "distinct (node_tags (SliceStable_hasTag nodes))"
    using tags by (simp add: node_tags_sorted)
  then have "\<forall>j. k < j \<and> j < length (SliceStable_hasTag nodes) \<longrightarrow>
      Node_Tag (dbNode (SliceStable_hasTag nodes ! j)) \<noteq> Some t"
    using Some node_tags_distinct_nth by blast
  from nameToNodes_loop_tagged_entry [OF k Some this, of 0 "[]"] Some show ?thesis by auto
qed

text \<open>
  Claim C4. When the tags of the nodes are pairwise distinct, then after
  \<^verbatim>\<open>uniquefyNodesName\<close>, whatever order the name table is iterated in, the slice holds the
  same node records as before, every node with a tag has exactly that tag as its unique
  name, and no other node of the slice, tagged or not, has that name.
\<close>

theorem uniquefyNodesName_tag_is_name:
  assumes order: "range_order \<rho>"
    and tags: "distinct (node_tags nodes)"
    and i: "i < length (uniquefyNodesName \<rho> nodes)"
    and t: "Node_Tag (dbNode (uniquefyNodesName \<rho> nodes ! i)) = Some t"
  shows "mset (map dbNode (uniquefyNodesName \<rho> nodes)) = mset (map dbNode nodes) \<and>
         uniqueName (uniquefyNodesName \<rho> nodes ! i) = t \<and>
         (\<forall>j. j < length (uniquefyNodesName \<rho> nodes) \<and> j \<noteq> i \<longrightarrow>
              uniqueName (uniquefyNodesName \<rho> nodes ! j) \<noteq> t)"
proof -
  let ?L = "SliceStable_hasTag nodes"
  let ?m = "nameToNodes_loop ?L 0 []"
  let ?out = "uniquefyNodesName \<rho> nodes"
  have len: "length ?out = length ?L" by (rule uniquefyNodesName_length)
  have keys: "distinct (map fst ?m)" by (rule nameToNodes_loop_keys) simp
  have perm: "mset (map dbNode ?out) = mset (map dbNode nodes)"
    using order by (simp add: uniquefyNodesName_dbNode SliceStable_hasTag_def)
  from i len have iL: "i < length ?L" by simp
  from t have tL: "Node_Tag (dbNode (?L ! i)) = Some t"
    using uniquefyNodesName_dbNode_nth [OF order iL] by simp
  from all_nodes_named [OF tags iL] tL have entry: "(t, i) \<in> set ?m" by auto
  have name_i: "uniqueName (?out ! i) = t"
    using uniquefyNodesName_named [OF order entry] by simp
  have others: "uniqueName (?out ! j) \<noteq> t" if j: "j < length ?out" "j \<noteq> i" for j
  proof -
    from j len have jL: "j < length ?L" by simp
    from all_nodes_named [OF tags jL] obtain name where n: "(name, j) \<in> set ?m" by auto
    have "name \<noteq> t"
    proof
      assume "name = t"
      with n entry keys have "j = i" by (metis eq_key_imp_eq_value)
      with j show False by simp
    qed
    with uniquefyNodesName_named [OF order n] show ?thesis by simp
  qed
  from perm name_i others show ?thesis by blast
qed

text \<open>
  The tagged node comes first after sorting and is named \<open>a\<close>; the two untagged nodes
  called \<open>a\<close> get other names.
\<close>

theorem uniquefyNodesName_tag_is_name_witness:
  "uniqueName (uniquefyNodesName rev tagged_example ! 0) = ''a'' \<and>
   uniqueName (uniquefyNodesName rev tagged_example ! 1) \<noteq> ''a'' \<and>
   uniqueName (uniquefyNodesName rev tagged_example ! 2) \<noteq> ''a''"
proof -
  have order: "range_order (rev :: (string \<times> nat) list \<Rightarrow> _)"
    by (simp add: range_order_def)
  have tags: "distinct (node_tags tagged_example)"
    by (simp add: tagged_example_def node_tags_def map_filter_simps)
  have len: "length (uniquefyNodesName rev tagged_example) = 3"
    by (simp add: uniquefyNodesName_length SliceStable_hasTag_def tagged_example_def)
  have t: "Node_Tag (dbNode (uniquefyNodesName rev tagged_example ! 0)) = Some ''a''"
    by code_simp
  from uniquefyNodesName_tag_is_name [OF order tags _ t] len show ?thesis by simp
qed


subsection \<open>What the iteration order of the name table cannot change\<close>

text \<open>
  The last loop of \<^verbatim>\<open>uniquefyNodesName\<close> writes each name through its own pointer, and
  the pointers of the table are pairwise different: the result is the same for every
  order. When no two nodes want the same name, every node gets the name it wants: its
  tag, or its base name when it has no tag. A non-empty wanted name never becomes empty.
\<close>

lemma uniquefyNodesName_order_free:
  assumes "range_order \<rho>" and "range_order \<rho>'"
  shows "uniquefyNodesName \<rho> xs = uniquefyNodesName \<rho>' xs"
proof (rule nth_equalityI)
  show "length (uniquefyNodesName \<rho> xs) = length (uniquefyNodesName \<rho>' xs)"
    by (simp add: uniquefyNodesName_length)
next
  fix k assume "k < length (uniquefyNodesName \<rho> xs)"
  show "uniquefyNodesName \<rho> xs ! k = uniquefyNodesName \<rho>' xs ! k"
  proof (cases "k \<in> snd ` set (nameToNodes_loop (SliceStable_hasTag xs) 0 [])")
    case True
    then obtain name where "(name, k) \<in> set (nameToNodes_loop (SliceStable_hasTag xs) 0 [])"
      by force
    with assms show ?thesis by (simp add: uniquefyNodesName_named)
  next
    case False
    with assms show ?thesis by (simp add: uniquefyNodesName_unnamed)
  qed
qed


lemma wantedName_free: "map_of m (wantedName [] n) = None \<Longrightarrow> wantedName m n = wantedName [] n"
  by (cases "Node_Tag (dbNode n)") (simp_all add: wantedName_def wantedName_loop.simps)

lemma update_fresh: "k \<notin> fst ` set m \<Longrightarrow> AList.update k v m = m @ [(k, v)]"
  by (induction m) auto

lemma nameToNodes_loop_uncontended:
  "distinct (map (wantedName []) ns) \<Longrightarrow> set (map (wantedName []) ns) \<inter> fst ` set m = {} \<Longrightarrow>
     nameToNodes_loop ns i m = m @ zip (map (wantedName []) ns) [i..<i + length ns]"
proof (induction ns arbitrary: i m)
  case Nil
  then show ?case by simp
next
  case (Cons n ns)
  from Cons.prems(2) have fresh: "wantedName [] n \<notin> fst ` set m" by auto
  then have "map_of m (wantedName [] n) = None" by (simp add: map_of_eq_None_iff)
  then have w: "wantedName m n = wantedName [] n" by (rule wantedName_free)
  from fresh have u: "AList.update (wantedName [] n) i m = m @ [(wantedName [] n, i)]"
    by (rule update_fresh)
  have d: "distinct (map (wantedName []) ns)" using Cons.prems(1) by simp
  have disj: "set (map (wantedName []) ns) \<inter> fst ` set (m @ [(wantedName [] n, i)]) = {}"
    using Cons.prems by auto
  have "[i..<i + length (n # ns)] = i # [i + 1..<i + 1 + length ns]"
    using upt_conv_Cons [of i "Suc (i + length ns)"] by simp
  with Cons.IH [OF d disj, of "i + 1"] w u show ?case by simp
qed

lemma uniquefyNodesName_uncontended:
  assumes order: "range_order \<rho>" and d: "distinct (map (wantedName []) xs)"
  shows "uniquefyNodesName \<rho> xs =
           map (\<lambda>n. n\<lparr>uniqueName := wantedName [] n\<rparr>) (SliceStable_hasTag xs)"
proof (rule nth_equalityI)
  show "length (uniquefyNodesName \<rho> xs) = length (map (\<lambda>n. n\<lparr>uniqueName := wantedName [] n\<rparr>) (SliceStable_hasTag xs))"
    by (simp add: uniquefyNodesName_length)
next
  let ?L = "SliceStable_hasTag xs"
  fix k assume "k < length (uniquefyNodesName \<rho> xs)"
  then have k: "k < length ?L" by (simp add: uniquefyNodesName_length)
  have "mset (map (wantedName []) ?L) = mset (map (wantedName []) xs)"
    by (simp add: SliceStable_hasTag_def)
  with d have "distinct (map (wantedName []) ?L)" by (metis mset_eq_imp_distinct_iff)
  then have m: "nameToNodes_loop ?L 0 [] = zip (map (wantedName []) ?L) [0..<length ?L]"
    using nameToNodes_loop_uncontended [of ?L "[]" 0] by simp
  have "(wantedName [] (?L ! k), k) \<in> set (zip (map (wantedName []) ?L) [0..<length ?L])"
    using k by (auto simp: in_set_zip intro!: exI [of _ k])
  with m have "(wantedName [] (?L ! k), k) \<in> set (nameToNodes_loop ?L 0 [])" by simp
  from uniquefyNodesName_named [OF order this] k
  show "uniquefyNodesName \<rho> xs ! k = map (\<lambda>n. n\<lparr>uniqueName := wantedName [] n\<rparr>) ?L ! k"
    by simp
qed






section \<open>Assembly\<close>

lemma Join_contains: "name \<in> set xs \<Longrightarrow> \<exists>pre post. Join xs sep = pre @ name @ post"
proof (induction xs sep rule: Join.induct)
  case (1 sep)
  then show ?case by simp
next
  case (2 x sep)
  then have "Join [x] sep = [] @ name @ []" by simp
  then show ?case by blast
next
  case (3 x y ys sep)
  show ?case
  proof (cases "name = x")
    case True
    then have "Join (x # y # ys) sep = [] @ name @ (sep @ Join (y # ys) sep)" by simp
    then show ?thesis by blast
  next
    case False
    with 3 obtain pre post where "Join (y # ys) sep = pre @ name @ post" by auto
    then have "Join (x # y # ys) sep = (x @ sep @ pre) @ name @ post" by simp
    then show ?thesis by blast
  qed
qed

lemma nameSet_insert_keys:
  "fst ` set (fold (\<lambda>name s. AList.update name () s) outbounds s) = set outbounds \<union> fst ` set s"
  by (induction outbounds arbitrary: s) (auto simp: dom_update)

lemma delete_dom: "fst ` set (AList.delete k al) = fst ` set al - {k}"
  by (induction al) auto

lemma nameSet_delete_keys:
  "fst ` set (fold (\<lambda>g s. AList.delete (Group_Name g) s) gs s) = fst ` set s - Group_Name ` set gs"
  by (induction gs arbitrary: s) (auto simp: delete_dom)

lemma nameSet_of_keys: "fst ` set (nameSet_of outbounds gs) = set outbounds - Group_Name ` set gs"
  by (simp add: nameSet_of_def nameSet_delete_keys nameSet_insert_keys)

lemma found_fewer:
  assumes names: "distinct (map Group_Name rows)" and outb: "distinct outbounds"
    and m: "m \<in> set outbounds" "m \<notin> Group_Name ` set rows"
  shows "length (filter (\<lambda>g. Group_Name g \<in> set outbounds) rows) \<noteq> length outbounds"
proof -
  let ?found = "filter (\<lambda>g. Group_Name g \<in> set outbounds) rows"
  have "distinct (map Group_Name ?found)"
    using names by (rule distinct_map_filter)
  then have "length ?found = card (Group_Name ` set ?found)"
    by (metis distinct_card length_map set_map)
  moreover have "Group_Name ` set ?found \<subseteq> set outbounds - {m}"
    using m by auto
  then have "card (Group_Name ` set ?found) \<le> card (set outbounds - {m})"
    by (intro card_mono) simp_all
  moreover have "card (set outbounds - {m}) < card (set outbounds)"
    using m(1) by (intro card_Diff1_less) simp_all
  moreover have "card (set outbounds) = length outbounds"
    using outb by (rule distinct_card)
  ultimately show ?thesis by simp
qed

text \<open>
  Claim C3. Let the selected profiles load and parse, and let the routing refer to a name
  that is neither a preset nor the name of a stored group. Then \<^verbatim>\<open>Run\<close> with
  \<^verbatim>\<open>noLoad = false\<close> returns the error \<open>GroupsNotDefined\<close>, whose list holds exactly the
  referenced names that are neither presets nor stored, each of them part of the error's
  text; the database is as before and no message has been submitted. The names of the
  outbounds and of the stored groups are taken to be free of repetitions, as the count
  that guards the check in the source presumes.
\<close>

theorem Run_missing_groups:
  assumes parse: "Run_parse env (db w) = Inr (mConfig, mDns, mRouting, c)"
    and nofault: "fault env FindGroups = None"
    and order: "range_order (range_nameSet env)"
    and outb: "distinct (NecessaryOutbounds env (Routing c))"
    and names: "distinct (map Group_Name (group_rows (db w)))"
    and missing: "m \<in> set (NecessaryOutbounds env (Routing c))" "\<not> preset m"
      "m \<notin> Group_Name ` set (group_rows (db w))"
  shows "\<exists>notFound.
           Run env w False = (Some (Inl (GroupsNotDefined notFound)), w) \<and>
           set notFound = {name \<in> set (NecessaryOutbounds env (Routing c)).
                             \<not> preset name \<and> name \<notin> Group_Name ` set (group_rows (db w))} \<and>
           (\<forall>name\<in>set notFound. \<exists>pre post. Error (GroupsNotDefined notFound) = pre @ name @ post)"
proof -
  let ?outbounds = "NecessaryOutbounds env (Routing c)"
  let ?gs = "filter (\<lambda>g. Group_Name g \<in> set ?outbounds) (group_rows (db w))"
  let ?notFound = "filter (\<lambda>name. \<not> preset name) (map fst (range_nameSet env (nameSet_of ?outbounds ?gs)))"
  have gs: "Run_groups env (db w) ?outbounds = Inr ?gs"
    using nofault by (simp add: Run_groups_def)
  have len: "length ?gs \<noteq> length ?outbounds"
    using names outb missing(1,3) by (rule found_fewer)
  have "set (range_nameSet env (nameSet_of ?outbounds ?gs)) = set (nameSet_of ?outbounds ?gs)"
    using order by (rule range_order_set)
  then have "fst ` set (range_nameSet env (nameSet_of ?outbounds ?gs))
      = set ?outbounds - Group_Name ` set ?gs"
    by (simp add: nameSet_of_keys)
  then have keys: "set (map fst (range_nameSet env (nameSet_of ?outbounds ?gs)))
      = set ?outbounds - Group_Name ` set (group_rows (db w))"
    by auto
  have nf: "set ?notFound = {name \<in> set ?outbounds. \<not> preset name \<and> name \<notin> Group_Name ` set (group_rows (db w))}"
    unfolding set_filter keys by auto
  with missing have "m \<in> set ?notFound" by blast
  then have "?notFound \<noteq> []" by (metis empty_iff empty_set)
  then have "length ?notFound > 0" using length_greater_0_conv by blast
  with len have "Run_notFound env ?outbounds ?gs = Some (GroupsNotDefined ?notFound)"
    unfolding Run_notFound_def Let_def by (simp only: if_P simp_thms if_True)
  with parse gs have run: "Run env w False = (Some (Inl (GroupsNotDefined ?notFound)), w)"
    by (simp add: Run_def Run_load_def Let_def)
  have "\<forall>name\<in>set ?notFound. \<exists>pre post. Error (GroupsNotDefined ?notFound) = pre @ name @ post"
  proof
    fix name assume "name \<in> set ?notFound"
    then obtain pre post where "Join ?notFound '', '' = pre @ name @ post"
      using Join_contains by blast
    then have "Error (GroupsNotDefined ?notFound)
        = (''groups not defined but referenced by routing: '' @ pre) @ name @ post"
      by simp
    then show "\<exists>pre post. Error (GroupsNotDefined ?notFound) = pre @ name @ post" by blast
  qed
  with run nf show ?thesis by blast
qed

text \<open>
  The routing refers to \<open>proxy\<close>, which is stored, to the preset \<open>direct\<close> and to
  \<open>G1\<close>: the error names \<open>G1\<close> alone and the state is as before.
\<close>

theorem Run_missing_groups_witness:
  "\<exists>notFound.
     Run G1_env demo_world False = (Some (Inl (GroupsNotDefined notFound)), demo_world) \<and>
     set notFound = {''G1''}"
proof -
  let ?c = "demo_config\<lparr>Routing := [''proxy'', ''direct'', ''G1'']\<rparr>"
  have parse: "Run_parse G1_env (db demo_world) =
      Inr (\<lparr>Config_ID = 1, Config_Global = ''global {}'', Config_Selected = True, Config_Version = 3\<rparr>,
           \<lparr>Dns_ID = 2, Dns_Dns = ''dns {}'', Dns_Selected = True, Dns_Version = 5\<rparr>,
           \<lparr>Routing_ID = 4, Routing_Routing = ''routing { fallback: proxy }'',
              Routing_Selected = True, Routing_Version = 12\<rparr>, ?c)"
    by (simp add: Run_parse_def G1_env_def demo_env_def demo_world_def demo_db_def db_First_def)
  have nofault: "fault G1_env FindGroups = None"
    by (simp add: G1_env_def demo_env_def)
  have order: "range_order (range_nameSet G1_env)"
    by (simp add: G1_env_def range_order_def)
  have outb: "NecessaryOutbounds G1_env (Routing ?c) = [''proxy'', ''direct'', ''G1'']"
    by (simp add: G1_env_def demo_env_def)
  have names: "Group_Name ` set (group_rows (db demo_world)) = {''proxy''}"
    "distinct (map Group_Name (group_rows (db demo_world)))"
    by (simp_all add: demo_world_def demo_db_def)
  have "{name \<in> set (NecessaryOutbounds G1_env (Routing ?c)).
           \<not> preset name \<and> name \<notin> Group_Name ` set (group_rows (db demo_world))} = {''G1''}"
    unfolding outb names by (auto simp: preset_def)
  with Run_missing_groups [OF parse nofault order _ names(2), of "''G1''"] outb names(1)
  show ?thesis by (auto simp: preset_def)
qed

lemma Run_parse_selected:
  "Run_parse env d = Inr (mConfig, mDns, mRouting, c) \<Longrightarrow>
     db_First Config_ID Config_Selected (configs d) = Some mConfig \<and>
     db_First Dns_ID Dns_Selected (dnss d) = Some mDns \<and>
     db_First Routing_ID Routing_Selected (routings d) = Some mRouting \<and>
     ParseConfig env (Some (Config_Global mConfig)) (Some (Dns_Dns mDns))
       (Some (Routing_Routing mRouting)) = Inr c"
  by (auto simp: Run_parse_def split: option.splits sum.splits)

lemma Run_save_ok:
  "Run_save env d mConfig mDns mRouting gs = (Inr n, d') \<Longrightarrow>
     n = 1 \<and>
     (\<exists>sys. system d' = Some sys \<and> Running sys \<and>
        RunningConfigID sys = Config_ID mConfig \<and>
        RunningConfigVersion sys = Config_Version mConfig \<and>
        RunningDnsID sys = Dns_ID mDns \<and>
        RunningDnsVersion sys = Dns_Version mDns \<and>
        RunningRoutingID sys = Routing_ID mRouting \<and>
        RunningRoutingVersion sys = Routing_Version mRouting \<and>
        RunningGroupVersions sys = Join (map (\<lambda>g. FormatUint (Group_Version g)) gs) '','' \<and>
        RunningGroups sys = map Group_ID gs)"
  by (cases "system d")
     (auto simp: Run_save_def FirstOrCreate_System_def Let_def split: option.splits)

text \<open>
  Claim C7. When \<^verbatim>\<open>Run\<close> with \<^verbatim>\<open>noLoad = false\<close> returns without error, it has
  submitted one message, built from the selected configuration, DNS and routing rows and
  from the groups found, the orchestrator has answered it with no error, and the running
  state then says: running, with the ids and versions of exactly these three rows, the
  versions of these groups joined by commas, and these groups as the running groups.
\<close>

theorem Run_records_what_it_ran:
  assumes "Run env w False = (Some (Inr n), w')"
  shows "\<exists>mConfig mDns mRouting c gs nodes msg sys.
           db_First Config_ID Config_Selected (configs (db w)) = Some mConfig \<and>
           db_First Dns_ID Dns_Selected (dnss (db w)) = Some mDns \<and>
           db_First Routing_ID Routing_Selected (routings (db w)) = Some mRouting \<and>
           ParseConfig env (Some (Config_Global mConfig)) (Some (Dns_Dns mDns))
             (Some (Routing_Routing mRouting)) = Inr c \<and>
           Run_groups env (db w) (NecessaryOutbounds env (Routing c)) = Inr gs \<and>
           Run_nodes env 0 gs = Inr nodes \<and>
           Config msg = Run_fill env gs (Run_named_nodes env nodes) c \<and>
           ChReloadConfigs w' = ChReloadConfigs w @ [msg] \<and>
           callback_reply env msg = Reply None \<and>
           n = 1 \<and>
           system (db w') = Some sys \<and> Running sys \<and>
           RunningConfigID sys = Config_ID mConfig \<and>
           RunningConfigVersion sys = Config_Version mConfig \<and>
           RunningDnsID sys = Dns_ID mDns \<and>
           RunningDnsVersion sys = Dns_Version mDns \<and>
           RunningRoutingID sys = Routing_ID mRouting \<and>
           RunningRoutingVersion sys = Routing_Version mRouting \<and>
           RunningGroupVersions sys = Join (map (\<lambda>g. FormatUint (Group_Version g)) gs) '','' \<and>
           RunningGroups sys = map Group_ID gs"
proof -
  from assms have load: "Run_load env w = (Some (Inr n), w')" by (simp add: Run_def)
  then obtain mConfig mDns mRouting c where parse: "Run_parse env (db w) = Inr (mConfig, mDns, mRouting, c)"
    by (cases "Run_parse env (db w)") (auto simp: Run_load_def)
  let ?outbounds = "NecessaryOutbounds env (Routing c)"
  from load parse obtain gs where gs: "Run_groups env (db w) ?outbounds = Inr gs"
    by (cases "Run_groups env (db w) ?outbounds") (auto simp: Run_load_def Let_def)
  from load parse gs have nf: "Run_notFound env ?outbounds gs = None"
    by (cases "Run_notFound env ?outbounds gs") (auto simp: Run_load_def Let_def)
  from load parse gs nf obtain nodes where nodes: "Run_nodes env 0 gs = Inr nodes"
    by (cases "Run_nodes env 0 gs") (auto simp: Run_load_def Let_def)
  let ?c = "Run_fill env gs (Run_named_nodes env nodes) c"
  let ?msg = "\<lparr>Config = ?c, Callback = length (ChReloadConfigs w)\<rparr>"
  let ?w1 = "w\<lparr>ChReloadConfigs := ChReloadConfigs w @ [?msg]\<rparr>"
  have sub: "submit w ?c = (?msg, ?w1)" by (simp add: submit_def Let_def)
  from load parse gs nf nodes sub have reply: "callback_reply env ?msg = Reply None"
    by (cases "callback_reply env ?msg")
       (auto simp: Run_load_def Let_def split: option.splits prod.splits)
  obtain r d where save: "Run_save env (db ?w1) mConfig mDns mRouting gs = (r, d)"
    by (cases "Run_save env (db ?w1) mConfig mDns mRouting gs") auto
  from load parse gs nf nodes sub reply save have r: "r = Inr n" and w': "w' = ?w1\<lparr>db := d\<rparr>"
    by (simp_all add: Run_load_def Let_def)
  from save r have saved: "Run_save env (db ?w1) mConfig mDns mRouting gs = (Inr n, d)" by simp
  from Run_save_ok [OF saved] obtain sys where sys: "n = 1" "system d = Some sys" "Running sys"
        "RunningConfigID sys = Config_ID mConfig"
        "RunningConfigVersion sys = Config_Version mConfig"
        "RunningDnsID sys = Dns_ID mDns"
        "RunningDnsVersion sys = Dns_Version mDns"
        "RunningRoutingID sys = Routing_ID mRouting"
        "RunningRoutingVersion sys = Routing_Version mRouting"
        "RunningGroupVersions sys = Join (map (\<lambda>g. FormatUint (Group_Version g)) gs) '',''"
        "RunningGroups sys = map Group_ID gs"
    by blast
  have queue: "ChReloadConfigs w' = ChReloadConfigs w @ [?msg]" and dw: "system (db w') = Some sys"
    using w' sys(2) by simp_all
  have cfg: "Config ?msg = ?c" by simp
  from Run_parse_selected [OF parse] gs nodes cfg queue reply sys dw
  show ?thesis by blast
qed

text \<open>The example database after a successful run.\<close>

theorem Run_records_what_it_ran_witness:
  "\<exists>sys. system (db (snd (Run demo_env demo_world False))) = Some sys \<and> Running sys \<and>
     RunningConfigID sys = 1 \<and> RunningConfigVersion sys = 3 \<and>
     RunningDnsID sys = 2 \<and> RunningDnsVersion sys = 5 \<and>
     RunningRoutingID sys = 4 \<and> RunningRoutingVersion sys = 12 \<and>
     RunningGroupVersions sys = ''7'' \<and> RunningGroups sys = [9]"
proof -
  have run: "fst (Run demo_env demo_world False) = Some (Inr 1)"
    by code_simp
  then have "Run demo_env demo_world False = (Some (Inr 1), snd (Run demo_env demo_world False))"
    by (metis prod.collapse)
  from Run_records_what_it_ran [OF this]
  obtain mConfig mDns mRouting c gs sys where
    sel: "db_First Config_ID Config_Selected (configs (db demo_world)) = Some mConfig"
      "db_First Dns_ID Dns_Selected (dnss (db demo_world)) = Some mDns"
      "db_First Routing_ID Routing_Selected (routings (db demo_world)) = Some mRouting"
      "ParseConfig demo_env (Some (Config_Global mConfig)) (Some (Dns_Dns mDns))
             (Some (Routing_Routing mRouting)) = Inr c"
      "Run_groups demo_env (db demo_world) (NecessaryOutbounds demo_env (Routing c)) = Inr gs"
    and sys: "system (db (snd (Run demo_env demo_world False))) = Some sys" "Running sys"
      "RunningConfigID sys = Config_ID mConfig"
      "RunningConfigVersion sys = Config_Version mConfig"
      "RunningDnsID sys = Dns_ID mDns"
      "RunningDnsVersion sys = Dns_Version mDns"
      "RunningRoutingID sys = Routing_ID mRouting"
      "RunningRoutingVersion sys = Routing_Version mRouting"
      "RunningGroupVersions sys = Join (map (\<lambda>g. FormatUint (Group_Version g)) gs) '',''"
      "RunningGroups sys = map Group_ID gs"
    by blast
  from sel(1-3) have rows: "Config_ID mConfig = 1" "Config_Version mConfig = 3"
      "Dns_ID mDns = 2" "Dns_Version mDns = 5" "Routing_ID mRouting = 4" "Routing_Version mRouting = 12"
    by (auto simp: db_First_def demo_world_def demo_db_def)
  from sel(4) have "Routing c = [''proxy'']"
    by (auto simp: demo_env_def demo_config_def)
  with sel(5) have "gs = group_rows demo_db"
    by (auto simp: Run_groups_def demo_env_def demo_world_def demo_db_def)
  then have "Join (map (\<lambda>g. FormatUint (Group_Version g)) gs) '','' = ''7''" "map Group_ID gs = [9]"
    by (simp_all add: demo_db_def FormatUint.simps digit_def)
  with sys rows show ?thesis by simp
qed

lemma node_tags_mset: "mset xs = mset ys \<Longrightarrow> mset (node_tags xs) = mset (node_tags ys)"
proof -
  assume e: "mset xs = mset ys"
  have "mset (node_tags zs) =
      image_mset (\<lambda>n. the (Node_Tag (dbNode n))) (filter_mset (\<lambda>n. Node_Tag (dbNode n) \<noteq> None) (mset zs))" for zs
    by (simp add: node_tags_def map_filter_def comp_def)
  with e show ?thesis by simp
qed

lemma deduplicateNodes_mset:
  "range_order \<rho> \<Longrightarrow> range_order \<rho>' \<Longrightarrow> mset (deduplicateNodes \<rho> nodes) = mset (deduplicateNodes \<rho>' nodes)"
  by (simp add: deduplicateNodes_def range_order_def)

lemma uniquefyNodesName_records:
  assumes "range_order \<rho>"
  shows "mset (map (\<lambda>n. (dbNode n, groups n)) (uniquefyNodesName \<rho> xs)) = mset (map (\<lambda>n. (dbNode n, groups n)) xs)"
proof -
  have pair: "map (\<lambda>n. (dbNode n, groups n)) ys = zip (map dbNode ys) (map groups ys)" for ys
    by (induction ys) simp_all
  have "map (\<lambda>n. (dbNode n, groups n)) (uniquefyNodesName \<rho> xs)
      = map (\<lambda>n. (dbNode n, groups n)) (SliceStable_hasTag xs)"
    using assms by (simp add: pair uniquefyNodesName_dbNode uniquefyNodesName_groups)
  then show ?thesis by (simp add: SliceStable_hasTag_def)
qed

lemma uniquefyNodesName_tagged:
  assumes order: "range_order \<rho>" and tags: "distinct (node_tags xs)"
    and n: "n \<in> set (uniquefyNodesName \<rho> xs)" and t: "Node_Tag (dbNode n) = Some t"
  shows "uniqueName n = t"
proof -
  let ?L = "SliceStable_hasTag xs"
  from n obtain i where i: "i < length (uniquefyNodesName \<rho> xs)" "n = uniquefyNodesName \<rho> xs ! i"
    by (auto simp: in_set_conv_nth)
  then have iL: "i < length ?L" by (simp add: uniquefyNodesName_length)
  from t i have "Node_Tag (dbNode (?L ! i)) = Some t"
    using uniquefyNodesName_dbNode_nth [OF order iL] by simp
  with all_nodes_named [OF tags iL] have "(t, i) \<in> set (nameToNodes_loop ?L 0 [])" by auto
  from uniquefyNodesName_named [OF order this] i show ?thesis by simp
qed

subsection \<open>The groups of the nodes\<close>

text \<open>
  What \<^verbatim>\<open>mGroupNode\<close> holds under a key is fixed by the pairs appended, and the members
  of each group, as a multiset, by the multiset of the nodes: the order of the nodes
  decides the order inside a group only.
\<close>

lemma mGroupNode_fold_pairs:
  "fold (\<lambda>n m. fold (mGroupNode_append n) (groups n) m) xs m =
     fold (\<lambda>p. mGroupNode_append (snd p) (fst p)) (group_pairs xs) m"
proof (induction xs arbitrary: m)
  case Nil
  show ?case by (simp add: group_pairs_def)
next
  case (Cons n ns)
  have "fold (\<lambda>p. mGroupNode_append (snd p) (fst p)) (map (\<lambda>g. (g, n)) (groups n)) m
      = fold (mGroupNode_append n) (groups n) m"
    by (simp add: fold_map comp_def)
  with Cons show ?case by (simp add: group_pairs_def)
qed

lemma mGroupNode_of_pairs:
  "mGroupNode_of xs = fold (\<lambda>p. mGroupNode_append (snd p) (fst p)) (group_pairs xs) []"
  by (simp add: mGroupNode_of_def mGroupNode_fold_pairs)

lemma mGroupNode_append_lookup:
  "map_of (mGroupNode_append n g m) =
     (map_of m)(g \<mapsto> (case map_of m g of None \<Rightarrow> [] | Some ns \<Rightarrow> ns) @ [n])"
  by (simp add: mGroupNode_append_def update_conv')

lemma mGroupNode_pairs_keys:
  "distinct (map fst m) \<Longrightarrow> distinct (map fst (fold (\<lambda>p. mGroupNode_append (snd p) (fst p)) ps m))"
  by (induction ps arbitrary: m) (simp_all add: mGroupNode_append_def distinct_update)

lemma mGroupNode_pairs_lookup:
  "map_of (fold (\<lambda>p. mGroupNode_append (snd p) (fst p)) ps m) k =
     (if map snd (filter (\<lambda>p. fst p = k) ps) = [] then map_of m k
      else Some ((case map_of m k of None \<Rightarrow> [] | Some ns \<Rightarrow> ns) @ map snd (filter (\<lambda>p. fst p = k) ps)))"
proof (induction ps arbitrary: m)
  case Nil
  show ?case by simp
next
  case (Cons p ps)
  show ?case
    by (cases "fst p = k") (simp_all add: Cons.IH mGroupNode_append_lookup split: option.splits)
qed

lemma mGroupNode_of_keys: "distinct (map fst (mGroupNode_of xs))"
  by (simp add: mGroupNode_of_pairs mGroupNode_pairs_keys)

lemma mGroupNode_of_lookup:
  "map_of (mGroupNode_of xs) k =
     (if filter (\<lambda>p. fst p = k) (group_pairs xs) = [] then None
      else Some (map snd (filter (\<lambda>p. fst p = k) (group_pairs xs))))"
  by (simp add: mGroupNode_of_pairs mGroupNode_pairs_lookup)

lemma group_pairs_mset:
  "mset (map (\<lambda>p. (fst p, h (snd p))) (group_pairs xs)) =
     (\<Sum>e \<in># mset (map (\<lambda>n. (groups n, h n)) xs). mset (map (\<lambda>g. (g, snd e)) (fst e)))"
  by (induction xs) (simp_all add: group_pairs_def comp_def)

lemma map_of_map_snd:
  "map_of (map (\<lambda>e. (fst e, f (snd e))) m) k = map_option f (map_of m k)"
  by (induction m) auto

lemma filter_pairs_mset:
  "image_mset snd (filter_mset (\<lambda>p. fst p = k) (mset (map (\<lambda>p. (fst p, h (snd p))) ps))) =
     mset (map h (map snd (filter (\<lambda>p. fst p = k) ps)))"
  by (induction ps) auto

lemma mGroupNode_members_lookup:
  "map_of (map (\<lambda>e. (fst e, mset (map h (snd e)))) (mGroupNode_of xs)) k =
     (let M = image_mset snd (filter_mset (\<lambda>p. fst p = k)
                (mset (map (\<lambda>p. (fst p, h (snd p))) (group_pairs xs))))
      in if M = {#} then None else Some M)"
proof -
  let ?F = "filter (\<lambda>p. fst p = k) (group_pairs xs)"
  have a: "map_of (map (\<lambda>e. (fst e, mset (map h (snd e)))) (mGroupNode_of xs)) k
      = map_option (\<lambda>ns. mset (map h ns)) (map_of (mGroupNode_of xs) k)"
    by (rule map_of_map_snd)
  have b: "image_mset snd (filter_mset (\<lambda>p. fst p = k)
                (mset (map (\<lambda>p. (fst p, h (snd p))) (group_pairs xs))))
      = mset (map h (map snd ?F))"
    by (rule filter_pairs_mset)
  show ?thesis
  proof (cases "?F = []")
    case True
    then show ?thesis unfolding Let_def a b mGroupNode_of_lookup by simp
  next
    case False
    then have "mset (map h (map snd ?F)) \<noteq> {#}" unfolding mset_zero_iff by simp
    with False show ?thesis unfolding Let_def a b mGroupNode_of_lookup
      by (simp add: multiset.map_comp)
  qed
qed

lemma mGroupNode_members_mset:
  assumes "mset (map (\<lambda>n. (groups n, h n)) xs) = mset (map (\<lambda>n. (groups n, h n)) ys)"
  shows "mset (map (\<lambda>e. (fst e, mset (map h (snd e)))) (mGroupNode_of xs)) =
         mset (map (\<lambda>e. (fst e, mset (map h (snd e)))) (mGroupNode_of ys))"
proof -
  let ?A = "map (\<lambda>e. (fst e, mset (map h (snd e)))) (mGroupNode_of xs)"
  let ?B = "map (\<lambda>e. (fst e, mset (map h (snd e)))) (mGroupNode_of ys)"
  have ka: "distinct (map fst ?A)" and kb: "distinct (map fst ?B)"
    using mGroupNode_of_keys [of xs] mGroupNode_of_keys [of ys] by (simp_all add: comp_def)
  have "mset (map (\<lambda>p. (fst p, h (snd p))) (group_pairs xs)) = mset (map (\<lambda>p. (fst p, h (snd p))) (group_pairs ys))"
    using assms by (simp only: group_pairs_mset)
  then have "map_of ?A = map_of ?B"
    by (intro ext) (simp only: mGroupNode_members_lookup)
  with ka kb have s: "set ?A = set ?B" by (simp add: map_of_inject_set)
  from ka kb have da: "distinct ?A" and db: "distinct ?B"
    by (simp_all only: distinct_map [THEN iffD1, THEN conjunct1])
  from da db s show ?thesis by (rule set_eq_iff_mset_eq_distinct [THEN iffD1])
qed

lemma uniquefyNodesName_uncontended_mset:
  assumes "range_order \<rho>" and "distinct (map (wantedName []) xs)"
  shows "mset (uniquefyNodesName \<rho> xs) = image_mset (\<lambda>n. n\<lparr>uniqueName := wantedName [] n\<rparr>) (mset xs)"
  by (simp add: uniquefyNodesName_uncontended [OF assms] SliceStable_hasTag_def)

lemma mGroupNode_range_mset:
  assumes e: "mset (map (\<lambda>n. (groups n, h n)) xs) = mset (map (\<lambda>n. (groups n, h n)) ys)"
    and o1: "range_order \<rho>" and o2: "range_order \<rho>'"
  shows "mset (map (\<lambda>e. F (fst e) (mset (map h (snd e)))) (\<rho> (mGroupNode_of xs))) =
         mset (map (\<lambda>e. F (fst e) (mset (map h (snd e)))) (\<rho>' (mGroupNode_of ys)))"
proof -
  let ?G = "\<lambda>e. F (fst e) (mset (map h (snd e)))"
  let ?p = "\<lambda>e. (fst e, mset (map h (snd e)))"
  from o1 have "mset (map ?G (\<rho> (mGroupNode_of xs))) = mset (map ?G (mGroupNode_of xs))"
    by (simp add: range_order_def)
  moreover from o2 have "mset (map ?G (\<rho>' (mGroupNode_of ys))) = mset (map ?G (mGroupNode_of ys))"
    by (simp add: range_order_def)
  moreover have "mset (map ?G (mGroupNode_of xs)) = mset (map ?G (mGroupNode_of ys))"
  proof -
    have r: "mset (map ?G zs) = image_mset (\<lambda>p. F (fst p) (snd p)) (mset (map ?p zs))" for zs
      by (simp add: multiset.map_comp comp_def)
    show ?thesis by (simp only: r mGroupNode_members_mset [OF e])
  qed
  ultimately show ?thesis by simp
qed

lemma group_head_entry:
  "group_head (group_entry gs e) =
     (Group_Name (gs ! fst e), group_policy (gs ! fst e),
      [(''name'', False, size (mset (map (\<lambda>n. ()) (snd e))))])"
  by (simp add: group_head_def group_entry_def)

lemma group_up_to_order_entry:
  "group_up_to_order (group_entry gs e) =
     (Group_Name (gs ! fst e), group_policy (gs ! fst e),
      [(''name'', False, mset (map (\<lambda>n. \<lparr>Param_Key = '''', Param_Val = uniqueName n\<rparr>) (snd e)))])"
  by (simp add: group_up_to_order_def group_entry_def)

lemma group_heads_mset:
  assumes e: "mset (map (\<lambda>n. (dbNode n, groups n)) xs) = mset (map (\<lambda>n. (dbNode n, groups n)) ys)"
    and o1: "range_order \<rho>" and o2: "range_order \<rho>'"
  shows "mset (map group_head (map (group_entry gs) (\<rho> (mGroupNode_of xs)))) =
         mset (map group_head (map (group_entry gs) (\<rho>' (mGroupNode_of ys))))"
proof -
  have r: "mset (map (\<lambda>n. (groups n, ())) zs)
      = image_mset (\<lambda>p. (snd p, ())) (mset (map (\<lambda>n. (dbNode n, groups n)) zs))" for zs
    by (simp add: multiset.map_comp comp_def)
  have "mset (map (\<lambda>n. (groups n, ())) xs) = mset (map (\<lambda>n. (groups n, ())) ys)"
    by (simp only: r e)
  from mGroupNode_range_mset [OF this o1 o2,
      of "\<lambda>k M. (Group_Name (gs ! k), group_policy (gs ! k), [(''name'', False, size M)])"]
  show ?thesis by (simp only: map_map comp_def group_head_entry)
qed

lemma groups_up_to_order_mset:
  assumes e: "mset xs = mset ys"
    and o1: "range_order \<rho>" and o2: "range_order \<rho>'"
  shows "mset (map group_up_to_order (map (group_entry gs) (\<rho> (mGroupNode_of xs)))) =
         mset (map group_up_to_order (map (group_entry gs) (\<rho>' (mGroupNode_of ys))))"
proof -
  from e have "mset (map (\<lambda>n. (groups n, \<lparr>Param_Key = '''', Param_Val = uniqueName n\<rparr>)) xs)
      = mset (map (\<lambda>n. (groups n, \<lparr>Param_Key = '''', Param_Val = uniqueName n\<rparr>)) ys)"
    by simp
  from mGroupNode_range_mset [OF this o1 o2,
      of "\<lambda>k M. (Group_Name (gs ! k), group_policy (gs ! k), [(''name'', False, M)])"]
  show ?thesis by (simp only: map_map comp_def group_up_to_order_entry)
qed

lemma group_entries_mset:
  assumes o1: "range_order \<rho>" and o2: "range_order \<rho>'"
  shows "mset (map (group_entry gs) (\<rho> (mGroupNode_of xs))) =
         mset (map (group_entry gs) (\<rho>' (mGroupNode_of xs)))"
  using assms by (simp add: range_order_def)

subsection \<open>The steps before the assembly\<close>

text \<open>
  A run that has loaded and parsed the selected rows, found the groups and loaded the
  nodes submits one message. Of the iteration orders only that of \<^verbatim>\<open>nameSet\<close> is used
  before, and it decides the text of the error, not whether there is one. The nodes come
  with an empty unique name and keep it through \<^verbatim>\<open>deduplicateNodes\<close>.
\<close>

lemma Run_submits:
  assumes "Run_parse env (db w) = Inr (mConfig, mDns, mRouting, c)"
    and "Run_groups env (db w) (NecessaryOutbounds env (Routing c)) = Inr gs"
    and "Run_notFound env (NecessaryOutbounds env (Routing c)) gs = None"
    and "Run_nodes env 0 gs = Inr nodes"
  shows "ChReloadConfigs (snd (Run env w False)) =
           ChReloadConfigs w @ [\<lparr>Config = Run_fill env gs (Run_named_nodes env nodes) c,
                                  Callback = length (ChReloadConfigs w)\<rparr>]"
  using assms
  by (simp add: Run_def Run_load_def Let_def submit_def split: reply.splits option.splits prod.splits)

lemma Run_parse_orders:
  "Run_parse (env\<lparr>range_set := a, range_nameToNodes := b, range_nameSet := k, range_mGroupNode := g\<rparr>) d
     = Run_parse env d"
  by (simp add: Run_parse_def split: option.splits)

lemma Run_groups_orders:
  "Run_groups (env\<lparr>range_set := a, range_nameToNodes := b, range_nameSet := k, range_mGroupNode := g\<rparr>) d ob
     = Run_groups env d ob"
  by (simp add: Run_groups_def)

lemma Run_nodes_orders:
  "Run_nodes (env\<lparr>range_set := a, range_nameToNodes := b, range_nameSet := k, range_mGroupNode := g\<rparr>) i gs
     = Run_nodes env i gs"
  by (induction gs arbitrary: i) (simp_all split: option.splits)

lemma Run_notFound_order:
  assumes "range_order (range_nameSet env)"
  shows "(Run_notFound env ob gs = None) =
           (length gs \<noteq> length ob \<longrightarrow>
              filter (\<lambda>name. \<not> preset name) (map fst (nameSet_of ob gs)) = [])"
proof -
  from assms have "mset (range_nameSet env (nameSet_of ob gs)) = mset (nameSet_of ob gs)"
    by (simp add: range_order_def)
  then have "mset (filter (\<lambda>name. \<not> preset name) (map fst (range_nameSet env (nameSet_of ob gs))))
      = mset (filter (\<lambda>name. \<not> preset name) (map fst (nameSet_of ob gs)))"
    by (metis mset_filter mset_map)
  then have "(filter (\<lambda>name. \<not> preset name) (map fst (range_nameSet env (nameSet_of ob gs))) = [])
      = (filter (\<lambda>name. \<not> preset name) (map fst (nameSet_of ob gs)) = [])"
    by (metis mset_zero_iff)
  then show ?thesis
    unfolding Run_notFound_def Let_def length_greater_0_conv by (simp only: if_split) auto
qed




lemma one_group_stages:
  "Run_parse demo_env (db (one_group_world ns)) =
     Inr (\<lparr>Config_ID = 1, Config_Global = ''global {}'', Config_Selected = True, Config_Version = 3\<rparr>,
          \<lparr>Dns_ID = 2, Dns_Dns = ''dns {}'', Dns_Selected = True, Dns_Version = 5\<rparr>,
          \<lparr>Routing_ID = 4, Routing_Routing = ''routing { fallback: proxy }'',
             Routing_Selected = True, Routing_Version = 12\<rparr>, demo_config)"
  "Run_groups demo_env (db (one_group_world ns)) (NecessaryOutbounds demo_env (Routing demo_config))
     = Inr (group_rows (db (one_group_world ns)))"
  "Run_notFound demo_env (NecessaryOutbounds demo_env (Routing demo_config))
     (group_rows (db (one_group_world ns))) = None"
  "Run_nodes demo_env 0 (group_rows (db (one_group_world ns)))
     = Inr (map (new_node 0) (filter (\<lambda>n. Node_SubscriptionID n = None) ns))"
  by (simp_all add: Run_parse_def Run_groups_def Run_notFound_def group_nodes_def
        one_group_world_def demo_env_def demo_db_def demo_config_def db_First_def)

lemma demo_name_order: "range_orders (demo_env\<lparr>range_nameToNodes := rev\<rparr>)"
  by (simp add: range_orders_def range_order_def demo_env_def)

text \<open>
  Claim C1, as amended. Take two runs of \<^verbatim>\<open>Run\<close> with \<^verbatim>\<open>noLoad = false\<close> on the same
  records that differ in nothing but the orders in which the four maps are iterated, and
  let the first reach the assembly: the selected rows load and parse, the groups are
  found with none missing, the nodes load. Then the second reaches it too, and each
  submits one message. Whatever the orders are, the two runs end with the same node
  records with the same group lists, emit equally many node entries, and emit the same
  groups with the same policies and equally many names in each. The order in which
  \<^verbatim>\<open>nameToNodes\<close> is iterated never matters: runs that iterate the map of
  \<^verbatim>\<open>deduplicateNodes\<close> alike give every node the same name and position, submit the same
  node section and the same group specs up to the order of the groups, and the same
  configuration when they iterate \<^verbatim>\<open>mGroupNode\<close> alike as well. When the tags of the
  deduplicated nodes are pairwise distinct, every tagged node has the same name in both
  runs. When no two deduplicated nodes want the same name (the tag, or the base name of a
  node without tag), every node is named by what it wants in both runs, so all nodes are
  named alike, and the node entries and the group specs of the two runs are the same up
  to order. The order of the entries, and the names of untagged nodes that share a base
  name, are not fixed by the records, as the counterexample below shows.
\<close>

theorem Run_up_to_iteration_order:
  assumes o1: "range_orders env" and o2: "range_orders env'"
    and same: "env' = env\<lparr>range_set := \<rho>s, range_nameToNodes := \<rho>n,
                            range_nameSet := \<rho>k, range_mGroupNode := \<rho>g\<rparr>"
    and parse: "Run_parse env (db w) = Inr (mConfig, mDns, mRouting, c)"
    and gs: "Run_groups env (db w) (NecessaryOutbounds env (Routing c)) = Inr gs"
    and found: "Run_notFound env (NecessaryOutbounds env (Routing c)) gs = None"
    and nodes: "Run_nodes env 0 gs = Inr nodes"
    and named: "named = Run_named_nodes env nodes" and named': "named' = Run_named_nodes env' nodes"
    and conf: "conf = Run_fill env gs named c" and conf': "conf' = Run_fill env' gs named' c"
  shows "ChReloadConfigs (snd (Run env w False)) =
           ChReloadConfigs w @ [\<lparr>Config = conf, Callback = length (ChReloadConfigs w)\<rparr>] \<and>
         ChReloadConfigs (snd (Run env' w False)) =
           ChReloadConfigs w @ [\<lparr>Config = conf', Callback = length (ChReloadConfigs w)\<rparr>] \<and>
         mset (map (\<lambda>n. (dbNode n, groups n)) named) = mset (map (\<lambda>n. (dbNode n, groups n)) named') \<and>
         length (Node conf) = length (Node conf') \<and>
         mset (map group_head (Group conf)) = mset (map group_head (Group conf')) \<and>
         (range_set env' = range_set env \<longrightarrow>
            named = named' \<and> Node conf = Node conf' \<and> mset (Group conf) = mset (Group conf')) \<and>
         (range_set env' = range_set env \<and> range_mGroupNode env' = range_mGroupNode env \<longrightarrow>
            conf = conf') \<and>
         (distinct (node_tags (deduplicateNodes (range_set env) nodes)) \<longrightarrow>
            (\<forall>n\<in>set named. \<forall>n'\<in>set named'.
               dbNode n = dbNode n' \<and> Node_Tag (dbNode n) \<noteq> None \<longrightarrow> uniqueName n = uniqueName n')) \<and>
         (distinct (map (wantedName []) (deduplicateNodes (range_set env) nodes)) \<longrightarrow>
            (\<forall>n\<in>set named. uniqueName n = wantedName [] n) \<and>
            (\<forall>n'\<in>set named'. uniqueName n' = wantedName [] n') \<and>
            mset named = mset named' \<and>
            mset (Node conf) = mset (Node conf') \<and>
            mset (map group_up_to_order (Group conf)) = mset (map group_up_to_order (Group conf')))"
proof -
  from o1 have s1: "range_order (range_set env)" and n1: "range_order (range_nameToNodes env)"
    and g1: "range_order (range_mGroupNode env)"
    by (simp_all add: range_orders_def)
  from o2 have s2: "range_order (range_set env')" and n2: "range_order (range_nameToNodes env')"
    and k2: "range_order (range_nameSet env')" and g2: "range_order (range_mGroupNode env')"
    by (simp_all add: range_orders_def)
  let ?d = "deduplicateNodes (range_set env) nodes"
  let ?d' = "deduplicateNodes (range_set env') nodes"
  have nm: "named = uniquefyNodesName (range_nameToNodes env) ?d"
    and nm': "named' = uniquefyNodesName (range_nameToNodes env') ?d'"
    by (simp_all add: named named' Run_named_nodes_def)
  have G: "Group conf = Group c @ map (group_entry gs) (range_mGroupNode env (mGroupNode_of named))"
    and N: "Node conf = Node c @ map node_entry named"
    and G': "Group conf' = Group c @ map (group_entry gs) (range_mGroupNode env' (mGroupNode_of named'))"
    and N': "Node conf' = Node c @ map node_entry named'"
    by (simp_all add: conf conf' Run_fill_def)

  have ob: "NecessaryOutbounds env' = NecessaryOutbounds env" by (simp add: same)
  have parse': "Run_parse env' (db w) = Inr (mConfig, mDns, mRouting, c)"
    unfolding same Run_parse_orders by (rule parse)
  have gs': "Run_groups env' (db w) (NecessaryOutbounds env' (Routing c)) = Inr gs"
    unfolding ob unfolding same Run_groups_orders by (rule gs)
  from o1 have k1: "range_order (range_nameSet env)" by (simp add: range_orders_def)
  from found have found': "Run_notFound env' (NecessaryOutbounds env' (Routing c)) gs = None"
    unfolding ob by (simp only: Run_notFound_order [OF k1] Run_notFound_order [OF k2])
  have nodes': "Run_nodes env' 0 gs = Inr nodes"
    unfolding same Run_nodes_orders by (rule nodes)
  have q: "ChReloadConfigs (snd (Run env w False)) =
           ChReloadConfigs w @ [\<lparr>Config = conf, Callback = length (ChReloadConfigs w)\<rparr>]"
    unfolding conf named by (rule Run_submits [OF parse gs found nodes])
  have q': "ChReloadConfigs (snd (Run env' w False)) =
           ChReloadConfigs w @ [\<lparr>Config = conf', Callback = length (ChReloadConfigs w)\<rparr>]"
    unfolding conf' named' by (rule Run_submits [OF parse' gs' found' nodes'])

  have d: "mset ?d = mset ?d'"
    using s1 s2 by (rule deduplicateNodes_mset)
  then have "mset (map (\<lambda>n. (dbNode n, groups n)) ?d) = mset (map (\<lambda>n. (dbNode n, groups n)) ?d')"
    by simp
  then have rec: "mset (map (\<lambda>n. (dbNode n, groups n)) named) = mset (map (\<lambda>n. (dbNode n, groups n)) named')"
    unfolding nm nm'
    by (simp only: uniquefyNodesName_records [OF n1] uniquefyNodesName_records [OF n2])
  then have len: "length named = length named'"
    by (metis length_map mset_eq_length)
  have lenN: "length (Node conf) = length (Node conf')"
    by (simp add: N N' len)
  have heads: "mset (map group_head (Group conf)) = mset (map group_head (Group conf'))"
    unfolding G G' map_append mset_append
    by (simp only: group_heads_mset [OF rec g1 g2])

  have same_set: "named = named' \<and> Node conf = Node conf' \<and> mset (Group conf) = mset (Group conf')"
    if "range_set env' = range_set env"
  proof -
    from that have "named = named'"
      unfolding nm nm' by (simp add: uniquefyNodesName_order_free [OF n1 n2])
    moreover from this have "Node conf = Node conf'" by (simp add: N N')
    moreover from \<open>named = named'\<close> have "mset (Group conf) = mset (Group conf')"
      unfolding G G' mset_append by (simp only: group_entries_mset [OF g1 g2])
    ultimately show ?thesis by simp
  qed
  have same_both: "conf = conf'"
    if "range_set env' = range_set env \<and> range_mGroupNode env' = range_mGroupNode env"
  proof -
    from that same_set have "named = named'" by simp
    with that show ?thesis by (simp add: conf conf' Run_fill_def)
  qed

  have tagged: "uniqueName a = uniqueName b"
    if tags1: "distinct (node_tags ?d)"
      and a: "a \<in> set named" and b: "b \<in> set named'"
      and ab: "dbNode a = dbNode b \<and> Node_Tag (dbNode a) \<noteq> None" for a b
  proof -
    from node_tags_mset [OF d] tags1 have tags2: "distinct (node_tags ?d')"
      by (metis mset_eq_imp_distinct_iff)
    from ab obtain t where t: "Node_Tag (dbNode a) = Some t" "Node_Tag (dbNode b) = Some t" by auto
    from a have "uniqueName a = t"
      unfolding nm using uniquefyNodesName_tagged [OF n1 tags1 _ t(1)] by blast
    moreover from b have "uniqueName b = t"
      unfolding nm' using uniquefyNodesName_tagged [OF n2 tags2 _ t(2)] by blast
    ultimately show ?thesis by simp
  qed

  have free: "(\<forall>n\<in>set named. uniqueName n = wantedName [] n) \<and>
            (\<forall>n'\<in>set named'. uniqueName n' = wantedName [] n') \<and>
            mset named = mset named' \<and>
            mset (Node conf) = mset (Node conf') \<and>
            mset (map group_up_to_order (Group conf)) = mset (map group_up_to_order (Group conf'))"
    if w1: "distinct (map (wantedName []) ?d)"
  proof -
    from d have "mset (map (wantedName []) ?d) = mset (map (wantedName []) ?d')" by simp
    with w1 have w2: "distinct (map (wantedName []) ?d')"
      by (metis mset_eq_imp_distinct_iff)
    have m1: "mset named = image_mset (\<lambda>n. n\<lparr>uniqueName := wantedName [] n\<rparr>) (mset ?d)"
      unfolding nm by (rule uniquefyNodesName_uncontended_mset [OF n1 w1])
    have m2: "mset named' = image_mset (\<lambda>n. n\<lparr>uniqueName := wantedName [] n\<rparr>) (mset ?d')"
      unfolding nm' by (rule uniquefyNodesName_uncontended_mset [OF n2 w2])
    have keep: "wantedName [] (n\<lparr>uniqueName := v\<rparr>) = wantedName [] n" for n v
      by (simp add: wantedName_def cong: option.case_cong)
    have a1: "\<forall>n\<in>set named. uniqueName n = wantedName [] n"
    proof
      fix n assume "n \<in> set named"
      then have "n \<in># mset named" by simp
      then show "uniqueName n = wantedName [] n"
        unfolding m1 by (auto simp: keep)
    qed
    have a2: "\<forall>n\<in>set named'. uniqueName n = wantedName [] n"
    proof
      fix n assume "n \<in> set named'"
      then have "n \<in># mset named'" by simp
      then show "uniqueName n = wantedName [] n"
        unfolding m2 by (auto simp: keep)
    qed
    from m1 m2 d have e: "mset named = mset named'" by simp
    then have "mset (map node_entry named) = mset (map node_entry named')" by simp
    then have ns: "mset (Node conf) = mset (Node conf')" by (simp add: N N')
    have "mset (map group_up_to_order (Group conf)) = mset (map group_up_to_order (Group conf'))"
      unfolding G G' map_append mset_append
      by (simp only: groups_up_to_order_mset [OF e g1 g2])
    with a1 a2 e ns show ?thesis by simp
  qed
  have P6: "range_set env' = range_set env \<longrightarrow>
            named = named' \<and> Node conf = Node conf' \<and> mset (Group conf) = mset (Group conf')"
    using same_set by (rule impI)
  have P7: "range_set env' = range_set env \<and> range_mGroupNode env' = range_mGroupNode env \<longrightarrow>
            conf = conf'"
    using same_both by (rule impI)
  have P8: "distinct (node_tags ?d) \<longrightarrow>
            (\<forall>n\<in>set named. \<forall>n'\<in>set named'.
               dbNode n = dbNode n' \<and> Node_Tag (dbNode n) \<noteq> None \<longrightarrow> uniqueName n = uniqueName n')"
    using tagged by (intro impI ballI)
  have P9: "distinct (map (wantedName []) ?d) \<longrightarrow>
            (\<forall>n\<in>set named. uniqueName n = wantedName [] n) \<and>
            (\<forall>n'\<in>set named'. uniqueName n' = wantedName [] n') \<and>
            mset named = mset named' \<and>
            mset (Node conf) = mset (Node conf') \<and>
            mset (map group_up_to_order (Group conf)) = mset (map group_up_to_order (Group conf'))"
    using free by (rule impI)
  show ?thesis
    by (intro conjI q q' rec lenN heads P6 P7 P8 P9)
qed

text \<open>
  Three nodes that want the names \<open>a\<close>, \<open>b\<close> and \<open>t\<close>. Iterating the map of
  \<^verbatim>\<open>deduplicateNodes\<close> backwards swaps two entries and changes no name; iterating
  \<^verbatim>\<open>nameToNodes\<close> backwards changes nothing.
\<close>

theorem Run_up_to_iteration_order_witness:
  "(\<exists>conf conf'.
      map Config (ChReloadConfigs (snd (Run demo_env (one_group_world plain_nodes) False))) = [conf] \<and>
      map Config (ChReloadConfigs (snd (Run (demo_env\<lparr>range_set := rev\<rparr>) (one_group_world plain_nodes) False)))
        = [conf'] \<and>
      Node conf = [''t:l3'', ''a:l1'', ''b:l2''] \<and>
      Node conf' = [''t:l3'', ''b:l2'', ''a:l1''] \<and>
      mset (Node conf) = mset (Node conf') \<and>
      mset (map group_up_to_order (Group conf)) = mset (map group_up_to_order (Group conf'))) \<and>
   map Config (ChReloadConfigs (snd (Run (demo_env\<lparr>range_nameToNodes := rev\<rparr>) (one_group_world plain_nodes) False)))
     = map Config (ChReloadConfigs (snd (Run demo_env (one_group_world plain_nodes) False)))"
proof -
  let ?w = "one_group_world plain_nodes"
  let ?gs = "group_rows (db ?w)"
  let ?nodes = "map (new_node 0) (filter (\<lambda>n. Node_SubscriptionID n = None) plain_nodes)"
  let ?e1 = "demo_env\<lparr>range_set := rev\<rparr>"
  let ?e2 = "demo_env\<lparr>range_nameToNodes := rev\<rparr>"
  let ?conf = "Run_fill demo_env ?gs (Run_named_nodes demo_env ?nodes) demo_config"
  let ?conf1 = "Run_fill ?e1 ?gs (Run_named_nodes ?e1 ?nodes) demo_config"
  let ?conf2 = "Run_fill ?e2 ?gs (Run_named_nodes ?e2 ?nodes) demo_config"
  have same1: "?e1 = demo_env\<lparr>range_set := rev, range_nameToNodes := (\<lambda>es. es),
                               range_nameSet := (\<lambda>es. es), range_mGroupNode := (\<lambda>es. es)\<rparr>"
    by (simp add: demo_env_def)
  have same2: "?e2 = demo_env\<lparr>range_set := (\<lambda>es. es), range_nameToNodes := rev,
                               range_nameSet := (\<lambda>es. es), range_mGroupNode := (\<lambda>es. es)\<rparr>"
    by (simp add: demo_env_def)
  have free: "distinct (map (wantedName []) (deduplicateNodes (range_set demo_env) ?nodes))"
    by code_simp
  have n: "Node ?conf = [''t:l3'', ''a:l1'', ''b:l2'']" and n1: "Node ?conf1 = [''t:l3'', ''b:l2'', ''a:l1'']"
    by code_simp+
  have r2: "range_set ?e2 = range_set demo_env \<and> range_mGroupNode ?e2 = range_mGroupNode demo_env"
    by (simp add: demo_env_def)
  note a = Run_up_to_iteration_order [OF demo_orders(1) demo_orders(2) same1
      one_group_stages [of plain_nodes] refl refl refl refl]
  note b = Run_up_to_iteration_order [OF demo_orders(1) demo_name_order same2
      one_group_stages [of plain_nodes] refl refl refl refl]
  from a have q: "ChReloadConfigs (snd (Run demo_env ?w False)) =
           ChReloadConfigs ?w @ [\<lparr>Config = ?conf, Callback = length (ChReloadConfigs ?w)\<rparr>]"
    and q1: "ChReloadConfigs (snd (Run ?e1 ?w False)) =
           ChReloadConfigs ?w @ [\<lparr>Config = ?conf1, Callback = length (ChReloadConfigs ?w)\<rparr>]"
    by (rule conjunct1, rule conjunct2 [THEN conjunct1])
  from b have q2: "ChReloadConfigs (snd (Run ?e2 ?w False)) =
           ChReloadConfigs ?w @ [\<lparr>Config = ?conf2, Callback = length (ChReloadConfigs ?w)\<rparr>]"
    by (rule conjunct2 [THEN conjunct1])
  have empty: "ChReloadConfigs ?w = []" by (simp add: one_group_world_def)
  from a free have m: "mset (Node ?conf) = mset (Node ?conf1)"
    and g: "mset (map group_up_to_order (Group ?conf)) = mset (map group_up_to_order (Group ?conf1))"
    by blast+
  from b r2 have "?conf = ?conf2" by blast
  with q q2 empty have last: "map Config (ChReloadConfigs (snd (Run ?e2 ?w False)))
     = map Config (ChReloadConfigs (snd (Run demo_env ?w False)))"
    by simp
  from q empty have c: "map Config (ChReloadConfigs (snd (Run demo_env ?w False))) = [?conf]" by simp
  from q1 empty have c1: "map Config (ChReloadConfigs (snd (Run ?e1 ?w False))) = [?conf1]" by simp
  show ?thesis
    by (intro conjI exI [of _ ?conf] exI [of _ ?conf1] c c1 n n1 m g last)
qed

text \<open>
  Claim C1 as stated fails. Two runs on the same database, the second iterating the map
  of \<^verbatim>\<open>deduplicateNodes\<close> in the opposite order, both succeed and submit different node
  sections: the two nodes called \<open>a\<close> swap their names.
\<close>

theorem Run_depends_on_iteration_order:
  "range_orders demo_env \<and> range_orders (demo_env\<lparr>range_set := rev\<rparr>) \<and>
   fst (Run demo_env demo_world False) = Some (Inr 1) \<and>
   fst (Run (demo_env\<lparr>range_set := rev\<rparr>) demo_world False) = Some (Inr 1) \<and>
   map (\<lambda>msg. Node (Config msg)) (ChReloadConfigs (snd (Run demo_env demo_world False)))
     = [[''a:l1'', ''a.0:l2'']] \<and>
   map (\<lambda>msg. Node (Config msg))
       (ChReloadConfigs (snd (Run (demo_env\<lparr>range_set := rev\<rparr>) demo_world False)))
     = [[''a:l2'', ''a.0:l1'']]"
proof -
  have "fst (Run demo_env demo_world False) = Some (Inr 1)"
    and "fst (Run (demo_env\<lparr>range_set := rev\<rparr>) demo_world False) = Some (Inr 1)"
    and "map (\<lambda>msg. Node (Config msg)) (ChReloadConfigs (snd (Run demo_env demo_world False)))
       = [[''a:l1'', ''a.0:l2'']]"
    and "map (\<lambda>msg. Node (Config msg))
         (ChReloadConfigs (snd (Run (demo_env\<lparr>range_set := rev\<rparr>) demo_world False)))
       = [[''a:l2'', ''a.0:l1'']]"
    by code_simp+
  with demo_orders show ?thesis by simp
qed




section \<open>The reload loop\<close>

lemma loop_stopped: "st_status s \<noteq> Receiving \<Longrightarrow> loop eng s ms = s"
  by (cases ms) simp_all

text \<open>The flag \<^verbatim>\<open>isRollback\<close> is never set: once false, it stays false.\<close>

lemma loop_body_isRollback: "\<not> st_isRollback s \<Longrightarrow> \<not> st_isRollback (loop_body eng s m)"
  by (cases m)
     (auto simp: loop_body_def on_nil_def on_reload_def install_def emit_def Let_def
           split: sum.splits option.splits)

lemma loop_isRollback: "\<not> st_isRollback s \<Longrightarrow> \<not> st_isRollback (loop eng s ms)"
  by (induction ms arbitrary: s) (simp_all add: loop_body_isRollback)

text \<open>
  Claim C6. When the loop receives a reload message and neither the requested nor the
  previous configuration can be built, it closes the ejected kernel programs, closes the
  old control plane and ends the process with \<^verbatim>\<open>log.Fatalln\<close>; nothing else happens, no
  callback is answered, and the messages that follow are not handled.
\<close>

theorem reload_fatal_when_rollback_fails:
  assumes recv: "st_status s = Receiving"
    and new: "newControlPlane eng (st_calls s) (Some (Bpf (st_c s))) (dnsCache_for s (Config msg))
                (Config msg) = Inl e1"
    and old: "newControlPlane eng (st_calls s + 1) (Some (Bpf (st_c s))) (dnsCache_for s (Config msg))
                (st_conf s) = Inl e2"
  shows "st_status (loop eng s (Some msg # rest)) = Exited \<and>
         st_trace (loop eng s (Some msg # rest)) =
           st_trace s
           @ [EjectBpf (st_c s)]
           @ (if dnsCache_for s (Config msg) \<noteq> None then [CloneDnsCache (st_c s)] else [])
           @ [NewControlPlane (Some (Bpf (st_c s))) (dnsCache_for s (Config msg)) (Config msg),
              NewControlPlane (Some (Bpf (st_c s))) (dnsCache_for s (Config msg)) (st_conf s),
              CloseBpf (Bpf (st_c s)), CloseControlPlane (st_c s), Fatalln] \<and>
         loop eng s (Some msg # rest) = loop eng s [Some msg]"
proof -
  let ?s' = "loop_body eng s (Some msg)"
  have st: "st_status ?s' = Exited"
    using new old by (simp add: loop_body_def on_reload_def emit_def Let_def)
  have tr: "st_trace ?s' =
           st_trace s
           @ [EjectBpf (st_c s)]
           @ (if dnsCache_for s (Config msg) \<noteq> None then [CloneDnsCache (st_c s)] else [])
           @ [NewControlPlane (Some (Bpf (st_c s))) (dnsCache_for s (Config msg)) (Config msg),
              NewControlPlane (Some (Bpf (st_c s))) (dnsCache_for s (Config msg)) (st_conf s),
              CloseBpf (Bpf (st_c s)), CloseControlPlane (st_c s), Fatalln]"
    using new old by (simp add: loop_body_def on_reload_def emit_def Let_def)
  from st have stop: "loop eng ?s' ms = ?s'" for ms
    by (intro loop_stopped) simp
  from recv have "loop eng s (Some msg # ms) = ?s'" for ms
    by (simp add: stop)
  with st tr show ?thesis by simp
qed

text \<open>
  With an engine that builds nothing any more, the first reload message ends the process;
  the second message and the listener's message are not handled.
\<close>

theorem reload_fatal_when_rollback_fails_witness:
  "st_status (loop broken_engine demo_state
      [Some \<lparr>Config = bad_config, Callback = 7\<rparr>, Some \<lparr>Config = demo_config, Callback = 8\<rparr>, None]) = Exited \<and>
   st_trace (loop broken_engine demo_state
      [Some \<lparr>Config = bad_config, Callback = 7\<rparr>, Some \<lparr>Config = demo_config, Callback = 8\<rparr>, None]) =
     [NewControlPlane None None demo_config, ListenAndServe 0,
      EjectBpf 0, CloneDnsCache 0,
      NewControlPlane (Some (Bpf 0)) (Some (DnsCache 0)) bad_config,
      NewControlPlane (Some (Bpf 0)) (Some (DnsCache 0)) demo_config,
      CloseBpf (Bpf 0), CloseControlPlane 0, Fatalln]"
proof -
  have recv: "st_status demo_state = Receiving" by (simp add: demo_state_def)
  have cache: "dnsCache_for demo_state bad_config = Some (DnsCache 0)"
    by (simp add: dnsCache_for_def demo_state_def bad_config_def demo_config_def)
  have new: "newControlPlane broken_engine (st_calls demo_state) (Some (Bpf (st_c demo_state)))
      (dnsCache_for demo_state (Config \<lparr>Config = bad_config, Callback = 7\<rparr>))
      (Config \<lparr>Config = bad_config, Callback = 7\<rparr>) = Inl ''out of memory''"
    by (simp add: newControlPlane_def broken_engine_def demo_state_def bad_config_def demo_config_def)
  have old: "newControlPlane broken_engine (st_calls demo_state + 1) (Some (Bpf (st_c demo_state)))
      (dnsCache_for demo_state (Config \<lparr>Config = bad_config, Callback = 7\<rparr>))
      (st_conf demo_state) = Inl ''out of memory''"
    by (simp add: newControlPlane_def broken_engine_def demo_state_def bad_config_def demo_config_def)
  have fields: "st_c demo_state = 0" "st_conf demo_state = demo_config"
      "st_trace demo_state = [NewControlPlane None None demo_config, ListenAndServe 0]"
    by (simp_all add: demo_state_def)
  note fatal = reload_fatal_when_rollback_fails
    [OF recv new old, of "[Some \<lparr>Config = demo_config, Callback = 8\<rparr>, None]"]
  from fatal [THEN conjunct1] fatal [THEN conjunct2, THEN conjunct1]
  show ?thesis by (simp add: cache fields del: loop.simps)
qed

text \<open>
  Claim C8. On every reload message the loop ejects the kernel programs and then builds
  the new control plane with a clone of the old DNS cache when the old and the new
  configuration prefer the same IP version, and with no cache when they differ; it clones
  the cache in the first case only. A rollback that follows builds the previous
  configuration with the same cache argument.
\<close>

theorem reload_dns_cache:
  assumes "st_status s = Receiving"
  shows "\<exists>rest.
           st_trace (loop eng s [Some msg]) =
             st_trace s
             @ [EjectBpf (st_c s)]
             @ (if IpVersionPrefer (Dns (st_conf s)) = IpVersionPrefer (Dns (Config msg))
                then [CloneDnsCache (st_c s),
                      NewControlPlane (Some (Bpf (st_c s))) (Some (DnsCache (st_c s))) (Config msg)]
                else [NewControlPlane (Some (Bpf (st_c s))) None (Config msg)])
             @ rest \<and>
           CloneDnsCache (st_c s) \<notin> set rest \<and>
           (\<forall>bpf dnsCache conf. NewControlPlane bpf dnsCache conf \<in> set rest \<longrightarrow>
              conf = st_conf s \<and>
              dnsCache = (if IpVersionPrefer (Dns (st_conf s)) = IpVersionPrefer (Dns (Config msg))
                          then Some (DnsCache (st_c s)) else None))"
proof -
  have run: "loop eng s [Some msg] = on_reload eng s msg"
    using assms by (simp add: loop_body_def)
  show ?thesis
    unfolding run
    by (cases "newControlPlane eng (st_calls s) (Some (Bpf (st_c s))) (dnsCache_for s (Config msg)) (Config msg)";
        cases "newControlPlane eng (st_calls s + 1) (Some (Bpf (st_c s))) (dnsCache_for s (Config msg)) (st_conf s)")
       (auto simp: on_reload_def install_def emit_def dnsCache_for_def Let_def)
qed

text \<open>
  A reload to a configuration that prefers IP version 6 gets no cache; a reload to one with
  the old preference gets the clone.
\<close>

theorem reload_dns_cache_witness:
  "st_trace (loop demo_engine demo_state [Some \<lparr>Config = ipv6_config, Callback = 7\<rparr>]) =
     st_trace demo_state @
     [EjectBpf 0, NewControlPlane (Some (Bpf 0)) None ipv6_config, InjectBpf 1 (Bpf 0), CloseControlPlane 0] \<and>
   (\<exists>rest. st_trace (loop demo_engine demo_state [Some \<lparr>Config = demo_config, Callback = 8\<rparr>]) =
     st_trace demo_state @
     [EjectBpf 0, CloneDnsCache 0, NewControlPlane (Some (Bpf 0)) (Some (DnsCache 0)) demo_config] @ rest)"
proof -
  have recv: "st_status demo_state = Receiving" by (simp add: demo_state_def)
  have ev: "st_trace (loop demo_engine demo_state [Some \<lparr>Config = ipv6_config, Callback = 7\<rparr>]) =
     st_trace demo_state @
     [EjectBpf 0, NewControlPlane (Some (Bpf 0)) None ipv6_config, InjectBpf 1 (Bpf 0), CloseControlPlane 0]"
    by (simp add: demo_state_def demo_engine_def ipv6_config_def demo_config_def newControlPlane_def
          loop_body_def on_reload_def install_def emit_def dnsCache_for_def Let_def)
  from reload_dns_cache [OF recv, of demo_engine "\<lparr>Config = demo_config, Callback = 8\<rparr>"]
  have "\<exists>rest. st_trace (loop demo_engine demo_state [Some \<lparr>Config = demo_config, Callback = 8\<rparr>]) =
     st_trace demo_state @
     [EjectBpf 0, CloneDnsCache 0, NewControlPlane (Some (Bpf 0)) (Some (DnsCache 0)) demo_config] @ rest"
    by (auto simp: demo_state_def)
  with ev show ?thesis by simp
qed

text \<open>
  Claim C2 does not hold of the code. The flag \<^verbatim>\<open>isRollback\<close> starts false, and the only
  assignment in the loop sets it to false, so it is never true and the test
  \<^verbatim>\<open>if !isRollback\<close> before the callback always passes. In the run below the requested
  configuration cannot be built, the previous one is built again, and when the listener's
  message arrives the caller's channel 7 receives \<open>True\<close>.
\<close>

theorem rollback_reports_success:
  "dae_Run demo_engine demo_config False [Some \<lparr>Config = bad_config, Callback = 7\<rparr>, None] =
     (NotReturned Receiving,
      [NewControlPlane None None demo_config, ListenAndServe 0,
       EjectBpf 0, CloneDnsCache 0,
       NewControlPlane (Some (Bpf 0)) (Some (DnsCache 0)) bad_config,
       NewControlPlane (Some (Bpf 0)) (Some (DnsCache 0)) demo_config,
       InjectBpf 2 (Bpf 0), CloseControlPlane 0,
       Serve 2, SendCallback 7 True])"
  by (simp add: dae_Run_def newControlPlane_def demo_engine_def demo_config_def bad_config_def
        loop_body_def on_reload_def on_nil_def install_def emit_def dnsCache_for_def Let_def)

section \<open>Updating a profile\<close>

text \<open>
  Neither operation submits a reload message. \<^verbatim>\<open>routing.Update\<close> parses the new text
  before it stores it; \<^verbatim>\<open>config.Update\<close> parses the text of the stored row and stores
  what the marshaller writes.
\<close>

lemma routing_Update_queue: "ChReloadConfigs (snd (routing_Update env w cursor routing)) = ChReloadConfigs w"
  by (simp add: routing_Update_def end_tx_def Let_def split: sum.splits option.splits)

lemma config_Update_queue: "ChReloadConfigs (snd (config_Update env w cursor inputGlobal)) = ChReloadConfigs w"
  by (simp add: config_Update_def end_tx_def Let_def split: sum.splits option.splits)

lemma routing_Update_parse_error:
  assumes "ParseConfig env None None (Some (''routing {'' @ newline @ routing @ newline @ ''}'')) = Inl err"
  shows "\<exists>e. routing_Update env w cursor routing = (Inl e, w) \<and>
           (DecodeCursor env cursor = Inr rid \<and> fault env FirstByID = None \<and>
            find (\<lambda>r. Routing_ID r = rid) (routings (db w)) = Some m0 \<longrightarrow> e = BadCurrentRouting err)"
  using assms
  by (auto simp: routing_Update_def end_tx_def Let_def split: sum.splits option.splits)

lemma config_Update_parse_error:
  assumes "DecodeCursor env cursor = Inr cid" and "fault env FirstByID = None"
    and "find (\<lambda>r. Config_ID r = cid) (configs (db w)) = Some m"
    and "ParseConfig env (Some (Config_Global m)) None None = Inl err"
  shows "config_Update env w cursor inputGlobal = (Inl (BadCurrentConfig err), w)"
  using assms by (simp add: config_Update_def end_tx_def)

end
